theory Spec2Isabelle
  imports Main
begin

section \<open>Collaborators: errors, Try and Promise\<close>

text \<open>
  The error kinds that \<^verbatim>\<open>Future-inl.h\<close> raises or forwards, and the ones the
  accessors of \<^verbatim>\<open>Try\<close> and \<^verbatim>\<open>Optional\<close> throw; \<open>AssertionFailed\<close> is a failed
  \<^verbatim>\<open>assert\<close>. \<open>RuntimeError\<close> is
  \<^verbatim>\<open>std::runtime_error\<close> with its message, \<open>UserError\<close> stands for any error a
  producer or a user callback puts into a \<^verbatim>\<open>Try\<close>.
\<close>

datatype exn =
    BrokenPromise
  | FutureInvalid
  | PromiseAlreadySatisfied
  | FutureNoExecutor
  | FutureNoTimekeeper
  | FutureTimeout
  | UsingUninitializedTry
  | TryException
  | OptionalEmptyException
  | AssertionFailed
  | RuntimeError string
  | UserError nat

text \<open>
  \<^verbatim>\<open>Try<T>\<close> holds a value, an exception, or nothing (a default-constructed
  \<^verbatim>\<open>Try\<close>, as the slots of \<^verbatim>\<open>std::vector<Try<T>> results(n)\<close> are).
\<close>

datatype 'a Try = Value 'a | Exception exn | Nothing

fun hasValue :: "'a Try \<Rightarrow> bool" where
  "hasValue (Value x) = True"
| "hasValue (Exception e) = False"
| "hasValue Nothing = False"

fun hasException :: "'a Try \<Rightarrow> bool" where
  "hasException (Value x) = False"
| "hasException (Exception e) = True"
| "hasException Nothing = False"

text \<open>
  Modelled from the spec: \<^verbatim>\<open>Promise<T>\<close> (\<^verbatim>\<open>Promise-inl.h\<close> is not part of
  the sources at hand). Section 4.3: \<^verbatim>\<open>setValue\<close>, \<^verbatim>\<open>setException\<close> and
  \<^verbatim>\<open>setTry\<close> fulfil the Core and fail with \<^verbatim>\<open>PromiseAlreadySatisfied\<close> if it is
  already fulfilled. The first result is kept in \<open>core_result\<close>; every later attempt
  leaves it alone and is counted in \<open>rejected\<close>, so that "fulfilled exactly once" reads
  \<open>core_result \<noteq> None\<close> and \<open>rejected = 0\<close>.
\<close>

record 'a Promise =
  core_result :: "'a Try option"
  rejected :: nat

definition makePromise :: "'a Promise" where
  "makePromise = \<lparr>core_result = None, rejected = 0\<rparr>"

definition setTry :: "'a Try \<Rightarrow> 'a Promise \<Rightarrow> 'a Promise" where
  "setTry t pr =
     (case core_result pr of
        None \<Rightarrow> pr\<lparr>core_result := Some t\<rparr>
      | Some r \<Rightarrow> pr\<lparr>rejected := Suc (rejected pr)\<rparr>)"

definition setValue :: "'a \<Rightarrow> 'a Promise \<Rightarrow> 'a Promise" where
  "setValue x = setTry (Value x)"

definition setException :: "exn \<Rightarrow> 'a Promise \<Rightarrow> 'a Promise" where
  "setException e = setTry (Exception e)"

section \<open>collectN\<close>

text \<open>
  \<^verbatim>\<open>struct CollectNContext\<close>: the slots \<open>v\<close> (one \<^verbatim>\<open>Optional<Try<T>>\<close> per input
  future), the two atomic counters and the aggregate promise. The counters are
  \<^verbatim>\<open>size_t\<close>; each callback adds one to each at most once, so they stay below the
  number of futures and never wrap: they are \<open>nat\<close> here.
\<close>

record 'a CollectNContext =
  v_cn :: "'a Try option list"
  completed_cn :: nat
  stored_cn :: nat
  p_cn :: "(nat \<times> 'a Try) list Promise"

definition makeCollectNContext :: "nat \<Rightarrow> 'a CollectNContext" where
  "makeCollectNContext numFutures =
     \<lparr>v_cn = replicate numFutures None, completed_cn = 0, stored_cn = 0, p_cn = makePromise\<rparr>"

definition setPartialResult :: "nat \<Rightarrow> 'a Try \<Rightarrow> 'a CollectNContext \<Rightarrow> 'a CollectNContext" where
  "setPartialResult index t ctx = ctx\<lparr>v_cn := (v_cn ctx)[index := Some t]\<rparr>"

text \<open>
  \<^verbatim>\<open>complete()\<close>: the loop over \<open>i = 0 ..< v.size()\<close> appends \<open>(i, v[i].value())\<close>
  for every slot that has a value, then fulfils the promise with the vector.
\<close>

fun complete_loop :: "'a Try option list \<Rightarrow> nat \<Rightarrow> (nat \<times> 'a Try) list" where
  "complete_loop [] i = []"
| "complete_loop (None # es) i = complete_loop es (Suc i)"
| "complete_loop (Some t # es) i = (i, t) # complete_loop es (Suc i)"

definition complete :: "'a CollectNContext \<Rightarrow> 'a CollectNContext" where
  "complete ctx = ctx\<lparr>p_cn := setTry (Value (complete_loop (v_cn ctx) 0)) (p_cn ctx)\<rparr>"

text \<open>
  The body of \<^verbatim>\<open>collectN(first, last, n)\<close> up to its \<^verbatim>\<open>return\<close>. The
  range of input futures is given by the list of their eventual results. The function
  returns the context and the indices of the input futures on which
  \<^verbatim>\<open>mapSetCallback\<close> installed a callback (none when there are fewer futures than
  \<open>n\<close>).
\<close>

definition collectN :: "'a Try list \<Rightarrow> nat \<Rightarrow> 'a CollectNContext \<times> nat list" where
  "collectN futures n =
     (let numFutures = length futures;
          ctx = makeCollectNContext numFutures in
      if numFutures < n
      then (ctx\<lparr>p_cn := setException (RuntimeError ''Not enough futures'') (p_cn ctx)\<rparr>, [])
      else (ctx, [0..<numFutures]))"

text \<open>
  The callback of input future \<open>i\<close>, cut at its atomic operations. A callback is at one
  of these points: before the \<^verbatim>\<open>fetch_add\<close> on \<open>completed\<close>, before
  \<^verbatim>\<open>setPartialResult\<close>, before the \<^verbatim>\<open>fetch_add\<close> on \<open>stored\<close>, before
  \<^verbatim>\<open>complete()\<close>, or it has returned (at the gate \<open>c > n\<close>, at \<open>s < n\<close>, or at
  the end of the lambda).
\<close>

datatype pc = AtGate | AtStore | AtCount | AtComplete | RetGate | RetCount | RetComplete

record 'a collectN_state =
  ctx_cn :: "'a CollectNContext"
  pcs_cn :: "nat \<Rightarrow> pc"

definition callbackN :: "nat \<Rightarrow> 'a Try \<Rightarrow> nat \<Rightarrow> 'a collectN_state \<Rightarrow> 'a collectN_state" where
  "callbackN n t i s =
     (let ctx = ctx_cn s in
      case pcs_cn s i of
        AtGate \<Rightarrow>
          (let c = 1 + completed_cn ctx;
               ctx' = ctx\<lparr>completed_cn := completed_cn ctx + 1\<rparr>
           in if c > n
              then s\<lparr>ctx_cn := ctx', pcs_cn := (pcs_cn s)(i := RetGate)\<rparr>
              else s\<lparr>ctx_cn := ctx', pcs_cn := (pcs_cn s)(i := AtStore)\<rparr>)
      | AtStore \<Rightarrow> s\<lparr>ctx_cn := setPartialResult i t ctx, pcs_cn := (pcs_cn s)(i := AtCount)\<rparr>
      | AtCount \<Rightarrow>
          (let st = 1 + stored_cn ctx;
               ctx' = ctx\<lparr>stored_cn := stored_cn ctx + 1\<rparr>
           in if st < n
              then s\<lparr>ctx_cn := ctx', pcs_cn := (pcs_cn s)(i := RetCount)\<rparr>
              else s\<lparr>ctx_cn := ctx', pcs_cn := (pcs_cn s)(i := AtComplete)\<rparr>)
      | AtComplete \<Rightarrow> s\<lparr>ctx_cn := complete ctx, pcs_cn := (pcs_cn s)(i := RetComplete)\<rparr>
      | RetGate \<Rightarrow> s
      | RetCount \<Rightarrow> s
      | RetComplete \<Rightarrow> s)"

text \<open>
  A run: input future \<open>i\<close> completes with \<open>ts ! i\<close>, and \<open>sched\<close> lists which callback
  takes its next atomic step, in the order the steps happen. Only installed callbacks
  move.
\<close>

definition run_collectN :: "nat \<Rightarrow> 'a Try list \<Rightarrow> nat list \<Rightarrow> 'a collectN_state" where
  "run_collectN n ts sched =
     (let (ctx, installed) = collectN ts n in
      fold (\<lambda>i s. if i \<in> set installed then callbackN n (ts ! i) i s else s) sched
        \<lparr>ctx_cn = ctx, pcs_cn = (\<lambda>i. AtGate)\<rparr>)"

subsection \<open>collectN: the order at the gate, and the invariant of a run\<close>

text \<open>
  The first step of a callback is its \<^verbatim>\<open>fetch_add\<close> on \<open>completed\<close>, so the order
  in which the callbacks reach the gate is the order of first occurrences in the
  schedule. The first \<open>n\<close> of it are the completers that pass the gate.
\<close>

definition gate_order :: "nat list \<Rightarrow> nat list" where
  "gate_order sched = rev (remdups (rev sched))"

text \<open>One step of a run of installed callbacks, and the points after the \<open>stored\<close> count.\<close>

definition stepN :: "nat \<Rightarrow> 'a Try list \<Rightarrow> nat \<Rightarrow> 'a collectN_state \<Rightarrow> 'a collectN_state" where
  "stepN n ts i s = (if i < length ts then callbackN n (ts ! i) i s else s)"

definition stored_pcs :: "pc set" where
  "stored_pcs = {AtComplete, RetCount, RetComplete}"

definition winners :: "nat \<Rightarrow> nat list \<Rightarrow> nat set" where
  "winners n sched = set (take n (gate_order sched))"

definition result_of :: "nat \<Rightarrow> 'a Try list \<Rightarrow> nat list \<Rightarrow> (nat \<times> 'a Try) list" where
  "result_of n ts sched =
     map (\<lambda>i. (i, ts ! i)) (filter (\<lambda>i. i \<in> set (take n (gate_order sched))) [0..<length ts])"

text \<open>
  The invariant of a run after the schedule \<open>sched\<close>: which callbacks are where, what
  the counters and the slots hold, and that at most one callback enters
  \<^verbatim>\<open>complete()\<close>, exactly when \<open>stored\<close> has reached \<open>n\<close>.
\<close>

definition collectN_inv :: "nat \<Rightarrow> 'a Try list \<Rightarrow> nat list \<Rightarrow> 'a collectN_state \<Rightarrow> bool" where
  "collectN_inv n ts sched s =
     (let m = length ts; c = ctx_cn s; pcs = pcs_cn s in
      length (v_cn c) = m \<and>
      (\<forall>i<m. (pcs i = AtGate) = (i \<notin> set sched)) \<and>
      completed_cn c = length (gate_order sched) \<and>
      (\<forall>i<m. (pcs i = RetGate) = (i \<in> set (drop n (gate_order sched)))) \<and>
      (\<forall>i<m. v_cn c ! i = (if pcs i \<in> {AtCount, AtComplete, RetCount, RetComplete} then Some (ts ! i) else None)) \<and>
      stored_cn c = card {i \<in> winners n sched. pcs i \<in> stored_pcs} \<and>
      rejected (p_cn c) = 0 \<and>
      (\<forall>i<m. pcs i \<in> {AtComplete, RetComplete} \<longrightarrow> stored_cn c = n) \<and>
      (\<forall>i<m. \<forall>j<m. pcs i \<in> {AtComplete, RetComplete} \<and> pcs j \<in> {AtComplete, RetComplete} \<longrightarrow> i = j) \<and>
      (stored_cn c = n \<longrightarrow> (\<exists>i<m. pcs i \<in> {AtComplete, RetComplete})) \<and>
      core_result (p_cn c) =
        (if \<exists>i<m. pcs i = RetComplete then Some (Value (result_of n ts sched)) else None))"

text \<open>How far a callback has come: a step never takes it back, and four steps end it.\<close>

fun rank :: "pc \<Rightarrow> nat" where
  "rank AtGate = 0"
| "rank AtStore = 1"
| "rank AtCount = 2"
| "rank AtComplete = 3"
| "rank RetGate = 4"
| "rank RetCount = 4"
| "rank RetComplete = 4"

section \<open>Aggregators over mapSetCallback\<close>

text \<open>
  The accessors of \<^verbatim>\<open>Try<T>\<close> that throw: \<^verbatim>\<open>value()\<close> rethrows a stored exception
  and throws on an empty \<^verbatim>\<open>Try\<close>; \<^verbatim>\<open>exception()\<close> throws unless an exception is
  stored. A throw is the \<open>Inl\<close> of the result (\<open>value\<close> is a keyword of Isabelle,
  hence the suffix).
\<close>

fun value_t :: "'a Try \<Rightarrow> exn + 'a" where
  "value_t (Value x) = Inr x"
| "value_t (Exception e) = Inl e"
| "value_t Nothing = Inl UsingUninitializedTry"

fun exception_t :: "'a Try \<Rightarrow> exn + exn" where
  "exception_t (Value x) = Inl TryException"
| "exception_t (Exception e) = Inr e"
| "exception_t Nothing = Inl TryException"

text \<open>
  Modelled from the spec: the destructor of \<^verbatim>\<open>Promise<T>\<close> (section 4.3: "Destructor
  without fulfilment: sets BrokenPromise").
\<close>

definition destroyPromise :: "'a Promise \<Rightarrow> 'a Promise" where
  "destroyPromise pr = (if core_result pr = None then setException BrokenPromise pr else pr)"

text \<open>
  Every aggregator makes its context with \<^verbatim>\<open>std::make_shared\<close> and copies the
  \<^verbatim>\<open>shared_ptr\<close> into each callback that \<^verbatim>\<open>mapSetCallback\<close> installs. The context
  is destroyed, and its destructor runs, when the last owner lets go: the owners are
  the local variable of the aggregator function (released when the function returns)
  and the callbacks (each destroyed after it has run). \<open>escaped\<close> collects the
  exceptions that leave a callback or the destructor.
\<close>

record 'c shared_ctx =
  ctx_of :: 'c
  use_count :: nat
  escaped :: "exn list"

definition thrown :: "exn option \<Rightarrow> exn list" where
  "thrown r = (case r of None \<Rightarrow> [] | Some e \<Rightarrow> [e])"

definition release :: "('c \<Rightarrow> 'c \<times> exn option) \<Rightarrow> 'c shared_ctx \<Rightarrow> 'c shared_ctx" where
  "release dtor sp =
     (if use_count sp = 1
      then (case dtor (ctx_of sp) of
              (c, r) \<Rightarrow> \<lparr>ctx_of = c, use_count = 0, escaped = escaped sp @ thrown r\<rparr>)
      else sp\<lparr>use_count := use_count sp - 1\<rparr>)"

text \<open>
  What happens to the context, in the order it happens: the aggregator function
  returns, or input future \<open>i\<close> completes, which runs its callback
  \<^verbatim>\<open>func(i, std::move(t))\<close> on the result \<open>ts ! i\<close> and then destroys the callback.
\<close>

datatype event = Return | Complete nat

definition deliver ::
  "(nat \<Rightarrow> 'a Try \<Rightarrow> 'c \<Rightarrow> 'c \<times> exn option) \<Rightarrow> ('c \<Rightarrow> 'c \<times> exn option) \<Rightarrow>
   'a Try list \<Rightarrow> event \<Rightarrow> 'c shared_ctx \<Rightarrow> 'c shared_ctx" where
  "deliver func dtor ts ev sp =
     (case ev of
        Return \<Rightarrow> release dtor sp
      | Complete i \<Rightarrow>
          if i < length ts
          then (case func i (ts ! i) (ctx_of sp) of
                  (c, r) \<Rightarrow> release dtor (sp\<lparr>ctx_of := c, escaped := escaped sp @ thrown r\<rparr>))
          else sp)"

text \<open>
  \<^verbatim>\<open>mapSetCallback(first, last, func)\<close> installs one callback per input future, each
  holding a copy of the context pointer; with the local variable that makes one owner
  more than there are futures. The events of \<open>sched\<close> then run in order.
\<close>

definition mapSetCallback ::
  "(nat \<Rightarrow> 'a Try \<Rightarrow> 'c \<Rightarrow> 'c \<times> exn option) \<Rightarrow> ('c \<Rightarrow> 'c \<times> exn option) \<Rightarrow>
   'a Try list \<Rightarrow> event list \<Rightarrow> 'c \<Rightarrow> 'c shared_ctx" where
  "mapSetCallback func dtor ts sched ctx =
     fold (deliver func dtor ts) sched
       \<lparr>ctx_of = ctx, use_count = Suc (length ts), escaped = []\<rparr>"

text \<open>
  A schedule in which the function returns once and every input future completes once, in
  any order; and the input futures in the order in which they complete.
\<close>

definition schedule :: "nat \<Rightarrow> event list \<Rightarrow> bool" where
  "schedule n sched \<longleftrightarrow> distinct sched \<and> set sched = insert Return (Complete ` {..<n})"

fun completions :: "event list \<Rightarrow> nat list" where
  "completions [] = []"
| "completions (Return # evs) = completions evs"
| "completions (Complete i # evs) = i # completions evs"

subsection \<open>collectAll\<close>

text \<open>
  \<^verbatim>\<open>struct CollectAllContext\<close> of \<^verbatim>\<open>collectAllSemiFuture(first, last)\<close>: the promise
  and \<open>n\<close> default-constructed results. Its destructor fulfils the promise with the
  results; the callback of future \<open>i\<close> is \<^verbatim>\<open>ctx->results[i] = std::move(t)\<close>.
\<close>

record 'a CollectAllContext =
  p_ca :: "'a Try list Promise"
  results_ca :: "'a Try list"

definition makeCollectAllContext :: "nat \<Rightarrow> 'a CollectAllContext" where
  "makeCollectAllContext n = \<lparr>p_ca = makePromise, results_ca = replicate n Nothing\<rparr>"

definition destroyCollectAllContext :: "'a CollectAllContext \<Rightarrow> 'a CollectAllContext \<times> exn option" where
  "destroyCollectAllContext ctx =
     (ctx\<lparr>p_ca := destroyPromise (setValue (results_ca ctx) (p_ca ctx))\<rparr>, None)"

definition collectAll_callback ::
  "nat \<Rightarrow> 'a Try \<Rightarrow> 'a CollectAllContext \<Rightarrow> 'a CollectAllContext \<times> exn option" where
  "collectAll_callback i t ctx = (ctx\<lparr>results_ca := (results_ca ctx)[i := t]\<rparr>, None)"

definition collectAllSemiFuture :: "'a Try list \<Rightarrow> event list \<Rightarrow> 'a CollectAllContext shared_ctx" where
  "collectAllSemiFuture ts sched =
     mapSetCallback collectAll_callback destroyCollectAllContext ts sched
       (makeCollectAllContext (length ts))"

text \<open>
  \<^verbatim>\<open>collectAll(first, last)\<close> is \<^verbatim>\<open>collectAllSemiFuture(first, last).toUnsafeFuture()\<close>,
  which only binds the inline executor. What the returned future holds after the events
  of \<open>sched\<close>: \<open>None\<close> while it is not ready, its result once it is.
\<close>

definition collectAll :: "'a Try list \<Rightarrow> event list \<Rightarrow> 'a Try list Try option" where
  "collectAll ts sched = core_result (p_ca (ctx_of (collectAllSemiFuture ts sched)))"

subsection \<open>collect\<close>

text \<open>
  \<^verbatim>\<open>struct CollectContext<T>\<close>: the promise, one \<^verbatim>\<open>Optional<T>\<close> per input, the
  final vector and the atomic flag \<open>threw\<close>. \<^verbatim>\<open>std::transform\<close> in the destructor
  reads every \<^verbatim>\<open>Optional\<close> with \<^verbatim>\<open>value()\<close>, which throws on an empty one.
\<close>

record 'a CollectContext =
  p_cc :: "'a list Promise"
  result_cc :: "'a option list"
  finalResult_cc :: "'a list"
  threw_cc :: bool

definition makeCollectContext :: "nat \<Rightarrow> 'a CollectContext" where
  "makeCollectContext n =
     \<lparr>p_cc = makePromise, result_cc = replicate n None, finalResult_cc = [], threw_cc = False\<rparr>"

fun transform_values :: "'a option list \<Rightarrow> 'a list \<Rightarrow> exn + 'a list" where
  "transform_values [] out = Inr out"
| "transform_values (None # os) out = Inl OptionalEmptyException"
| "transform_values (Some x # os) out = transform_values os (out @ [x])"

definition destroyCollectContext :: "'a CollectContext \<Rightarrow> 'a CollectContext \<times> exn option" where
  "destroyCollectContext ctx =
     (if \<not> threw_cc ctx
      then (let ctx1 = ctx\<lparr>threw_cc := True\<rparr> in
            case transform_values (result_cc ctx1) (finalResult_cc ctx1) of
              Inl e \<Rightarrow> (ctx1, Some e)
            | Inr vs \<Rightarrow>
                (ctx1\<lparr>finalResult_cc := vs, p_cc := destroyPromise (setValue vs (p_cc ctx1))\<rparr>, None))
      else (ctx\<lparr>p_cc := destroyPromise (p_cc ctx)\<rparr>, None))"

definition setPartialResult_cc :: "nat \<Rightarrow> 'a Try \<Rightarrow> 'a CollectContext \<Rightarrow> 'a CollectContext \<times> exn option" where
  "setPartialResult_cc i t ctx =
     (case value_t t of
        Inl e \<Rightarrow> (ctx, Some e)
      | Inr x \<Rightarrow> (ctx\<lparr>result_cc := (result_cc ctx)[i := Some x]\<rparr>, None))"

definition collect_callback :: "nat \<Rightarrow> 'a Try \<Rightarrow> 'a CollectContext \<Rightarrow> 'a CollectContext \<times> exn option" where
  "collect_callback i t ctx =
     (if hasException t
      then (if \<not> threw_cc ctx
            then (case exception_t t of
                    Inl e \<Rightarrow> (ctx\<lparr>threw_cc := True\<rparr>, Some e)
                  | Inr e \<Rightarrow> (ctx\<lparr>threw_cc := True, p_cc := setException e (p_cc ctx)\<rparr>, None))
            else (ctx, None))
      else if \<not> threw_cc ctx then setPartialResult_cc i t ctx
      else (ctx, None))"

text \<open>
  \<^verbatim>\<open>collect(first, last)\<close>: the context, the callbacks, and the returned future
  (\<^verbatim>\<open>.via(&InlineExecutor::instance())\<close> only binds the executor).
\<close>

definition collect_run :: "'a Try list \<Rightarrow> event list \<Rightarrow> 'a CollectContext shared_ctx" where
  "collect_run ts sched =
     mapSetCallback collect_callback destroyCollectContext ts sched (makeCollectContext (length ts))"

definition collect :: "'a Try list \<Rightarrow> event list \<Rightarrow> 'a list Try option" where
  "collect ts sched = core_result (p_cc (ctx_of (collect_run ts sched)))"

subsection \<open>collectAnyWithoutException\<close>

text \<open>
  \<^verbatim>\<open>struct CollectAnyWithoutExceptionContext\<close>. It has no destructor of its own; when
  it goes, its promise is destroyed. In the callback, \<^verbatim>\<open>&&\<close> evaluates
  \<^verbatim>\<open>done.exchange(true)\<close> only for a result without exception.
\<close>

record 'a CollectAnyWithoutExceptionContext =
  p_cawe :: "(nat \<times> 'a) Promise"
  done_cawe :: bool
  nFulfilled_cawe :: nat
  nTotal_cawe :: nat

definition makeCollectAnyWithoutExceptionContext :: "nat \<Rightarrow> 'a CollectAnyWithoutExceptionContext" where
  "makeCollectAnyWithoutExceptionContext n =
     \<lparr>p_cawe = makePromise, done_cawe = False, nFulfilled_cawe = 0, nTotal_cawe = n\<rparr>"

definition destroyCollectAnyWithoutExceptionContext ::
  "'a CollectAnyWithoutExceptionContext \<Rightarrow> 'a CollectAnyWithoutExceptionContext \<times> exn option" where
  "destroyCollectAnyWithoutExceptionContext ctx = (ctx\<lparr>p_cawe := destroyPromise (p_cawe ctx)\<rparr>, None)"

definition collectAnyWithoutException_callback ::
  "nat \<Rightarrow> 'a Try \<Rightarrow> 'a CollectAnyWithoutExceptionContext \<Rightarrow>
   'a CollectAnyWithoutExceptionContext \<times> exn option" where
  "collectAnyWithoutException_callback i t ctx =
     (if \<not> hasException t \<and> \<not> done_cawe ctx
      then (let ctx1 = ctx\<lparr>done_cawe := True\<rparr> in
            case value_t t of
              Inl e \<Rightarrow> (ctx1, Some e)
            | Inr x \<Rightarrow> (ctx1\<lparr>p_cawe := setValue (i, x) (p_cawe ctx1)\<rparr>, None))
      else (let ctx1 = ctx\<lparr>nFulfilled_cawe := nFulfilled_cawe ctx + 1\<rparr> in
            if nFulfilled_cawe ctx1 = nTotal_cawe ctx1
            then (case exception_t t of
                    Inl e \<Rightarrow> (ctx1, Some e)
                  | Inr e \<Rightarrow> (ctx1\<lparr>p_cawe := setException e (p_cawe ctx1)\<rparr>, None))
            else (ctx1, None)))"

definition collectAnyWithoutException_run ::
  "'a Try list \<Rightarrow> event list \<Rightarrow> 'a CollectAnyWithoutExceptionContext shared_ctx" where
  "collectAnyWithoutException_run ts sched =
     mapSetCallback collectAnyWithoutException_callback destroyCollectAnyWithoutExceptionContext
       ts sched (makeCollectAnyWithoutExceptionContext (length ts))"

definition collectAnyWithoutException :: "'a Try list \<Rightarrow> event list \<Rightarrow> (nat \<times> 'a) Try option" where
  "collectAnyWithoutException ts sched =
     core_result (p_cawe (ctx_of (collectAnyWithoutException_run ts sched)))"

text \<open>
  Reading a list of results: the errors and the values in it, in order. (\<open>map_Try\<close>, which
  the datatype provides, applies a function to the value of a result and leaves an error
  alone.)
\<close>

fun errors_of :: "'a Try list \<Rightarrow> exn list" where
  "errors_of [] = []"
| "errors_of (Exception e # ts) = e # errors_of ts"
| "errors_of (t # ts) = errors_of ts"

fun values_of :: "'a Try list \<Rightarrow> 'a list" where
  "values_of [] = []"
| "values_of (Value x # ts) = x # values_of ts"
| "values_of (t # ts) = values_of ts"

text \<open>
  The callbacks alone, run in the order \<open>is\<close> on a context and the exceptions that have
  escaped so far: what a schedule does to the context before its last event.
\<close>

definition run_callback ::
  "(nat \<Rightarrow> 'a Try \<Rightarrow> 'c \<Rightarrow> 'c \<times> exn option) \<Rightarrow> 'a Try list \<Rightarrow> nat \<Rightarrow> 'c \<times> exn list \<Rightarrow> 'c \<times> exn list" where
  "run_callback func ts i ce = (case func i (ts ! i) (fst ce) of (c, r) \<Rightarrow> (c, snd ce @ thrown r))"

definition run_callbacks ::
  "(nat \<Rightarrow> 'a Try \<Rightarrow> 'c \<Rightarrow> 'c \<times> exn option) \<Rightarrow> 'a Try list \<Rightarrow> nat list \<Rightarrow> 'c \<Rightarrow> 'c \<times> exn list" where
  "run_callbacks func ts is ctx = fold (run_callback func ts) is (ctx, [])"

text \<open>The value of a result, if it is one.\<close>

fun value_opt :: "'a Try \<Rightarrow> 'a option" where
  "value_opt (Value x) = Some x"
| "value_opt (Exception e) = None"
| "value_opt Nothing = None"

text \<open>
  What the callbacks of \<^verbatim>\<open>collect\<close> have done to its context after the inputs \<open>is\<close>
  have completed, when no input result is empty.
\<close>

definition collect_inv :: "'a Try list \<Rightarrow> nat list \<Rightarrow> 'a CollectContext \<times> exn list \<Rightarrow> bool" where
  "collect_inv ts is ce \<longleftrightarrow>
     snd ce = [] \<and>
     threw_cc (fst ce) = (errors_of (map ((!) ts) is) \<noteq> []) \<and>
     p_cc (fst ce) = (case errors_of (map ((!) ts) is) of
                        [] \<Rightarrow> makePromise
                      | e # es \<Rightarrow> \<lparr>core_result = Some (Exception e), rejected = 0\<rparr>) \<and>
     finalResult_cc (fst ce) = [] \<and>
     (errors_of (map ((!) ts) is) = [] \<longrightarrow>
        result_cc (fst ce) = map (\<lambda>j. if j \<in> set is then value_opt (ts ! j) else None) [0..<length ts])"

text \<open>
  What the callbacks of \<^verbatim>\<open>collectAnyWithoutException\<close> have done to its context after
  the inputs \<open>is\<close> have completed.
\<close>

definition cawe_inv ::
  "'a Try list \<Rightarrow> nat list \<Rightarrow> 'a CollectAnyWithoutExceptionContext \<times> exn list \<Rightarrow> bool" where
  "cawe_inv ts is ce \<longleftrightarrow>
     snd ce = [] \<and>
     done_cawe (fst ce) = (filter (\<lambda>i. hasValue (ts ! i)) is \<noteq> []) \<and>
     nTotal_cawe (fst ce) = length ts \<and>
     nFulfilled_cawe (fst ce) =
       length is - (if filter (\<lambda>i. hasValue (ts ! i)) is = [] then 0 else 1) \<and>
     p_cawe (fst ce) =
       (case filter (\<lambda>i. hasValue (ts ! i)) is of
          i # ws \<Rightarrow> \<lparr>core_result = Some (map_Try (Pair i) (ts ! i)), rejected = 0\<rparr>
        | [] \<Rightarrow>
            if is \<noteq> [] \<and> length is = length ts
            then \<lparr>core_result = Some (map_Try (Pair (last is)) (ts ! last is)), rejected = 0\<rparr>
            else makePromise)"

section \<open>DeferredExecutor, SemiFuture and Future\<close>

text \<open>
  \<^verbatim>\<open>class DeferredExecutor\<close>: the atomic state, whether \<open>func_\<close> holds the deferred
  function, the executor pointer (executors are told apart by a number) and the baton
  stored in \<open>baton_\<close> (batons are told apart by a number too). The remaining fields
  record what the object has done: the batons it has posted, how often the deferred
  function has run, how many functions \<^verbatim>\<open>add\<close> has run inline, the executors to which
  it has added the task \<^verbatim>\<open>runAndDestroy\<close>, and whether it has deleted itself.
\<close>

datatype State = EMPTY | HAS_FUNCTION | HAS_EXECUTOR | HAS_BATON | DETACHED

record DeferredExecutor =
  state_de :: State
  func_de :: bool
  executor_de :: "nat option"
  baton_de :: "nat option"
  posted_de :: "nat set"
  ran_de :: nat
  inline_de :: nat
  added_de :: "nat list"
  deleted_de :: bool

definition makeDeferredExecutor :: DeferredExecutor where
  "makeDeferredExecutor =
     \<lparr>state_de = EMPTY, func_de = False, executor_de = None, baton_de = None,
      posted_de = {}, ran_de = 0, inline_de = 0, added_de = [], deleted_de = False\<rparr>"

text \<open>
  \<^verbatim>\<open>setExecutor(executor)\<close>, run without interference: the loop ends at its first
  \<^verbatim>\<open>compare_exchange\<close>.
\<close>

definition setExecutor :: "nat \<Rightarrow> DeferredExecutor \<Rightarrow> exn + DeferredExecutor" where
  "setExecutor e de =
     (let de1 = de\<lparr>executor_de := Some e\<rparr> in
      if state_de de1 = HAS_FUNCTION then Inr (de1\<lparr>added_de := added_de de1 @ [e]\<rparr>)
      else if state_de de1 \<noteq> EMPTY then Inl AssertionFailed
      else Inr (de1\<lparr>state_de := HAS_EXECUTOR\<rparr>))"

text \<open>
  \<^verbatim>\<open>runAndDestroy()\<close>: asserts \<open>HAS_FUNCTION\<close>, runs the function, deletes the object.
\<close>

definition runAndDestroy :: "DeferredExecutor \<Rightarrow> exn + DeferredExecutor" where
  "runAndDestroy de =
     (if state_de de \<noteq> HAS_FUNCTION then Inl AssertionFailed
      else Inr (de\<lparr>ran_de := ran_de de + 1, deleted_de := True\<rparr>))"

text \<open>
  Modelled from the spec: the part of \<^verbatim>\<open>Core<T>\<close> (\<^verbatim>\<open>detail/Core.h\<close> is not among
  the sources) that \<^verbatim>\<open>via\<close> touches. Section 3: a Core holds an optional result and
  an optional reference to an executor, which may be a DeferredExecutor placeholder, with
  an integer priority (\<^verbatim>\<open>int8_t\<close>, only stored here). A handle whose \<open>core_\<close> is null
  is a moved-from one; \<^verbatim>\<open>getCore()\<close> on it throws \<^verbatim>\<open>FutureInvalid\<close>.
\<close>

datatype executor = Executor nat | Deferred DeferredExecutor

record 'a Core =
  result_core :: "'a Try option"
  executor_core :: "executor option"
  priority_core :: int

type_synonym 'a SemiFuture = "'a Core option"
type_synonym 'a Future = "'a Core option"

definition getCore :: "'a Core option \<Rightarrow> exn + 'a Core" where
  "getCore core = (case core of None \<Rightarrow> Inl FutureInvalid | Some c \<Rightarrow> Inr c)"

text \<open>
  \<^verbatim>\<open>SemiFuture<T>::getDeferredExecutor()\<close>: the executor of the core, which for a
  SemiFuture is a DeferredExecutor if there is one (the \<^verbatim>\<open>assert\<close> on the
  \<^verbatim>\<open>dynamic_cast\<close>).
\<close>

definition getDeferredExecutor :: "'a SemiFuture \<Rightarrow> exn + DeferredExecutor option" where
  "getDeferredExecutor sf =
     (case getCore sf of
        Inl err \<Rightarrow> Inl err
      | Inr c \<Rightarrow>
          (case executor_core c of
             None \<Rightarrow> Inr None
           | Some (Deferred de) \<Rightarrow> Inr (Some de)
           | Some (Executor e) \<Rightarrow> Inl AssertionFailed))"

text \<open>
  \<^verbatim>\<open>SemiFuture<T>::via(Executor::KeepAlive<> executor, int8_t priority) &&\<close>. A null
  executor is \<open>None\<close>. The result is the new Future and, when the SemiFuture had a
  placeholder, the placeholder after \<^verbatim>\<open>setExecutor\<close>.
\<close>

definition SemiFuture_via ::
  "nat option \<Rightarrow> int \<Rightarrow> 'a SemiFuture \<Rightarrow> exn + ('a Future \<times> DeferredExecutor option)" where
  "SemiFuture_via executor priority sf =
     (case executor of
        None \<Rightarrow> Inl FutureNoExecutor
      | Some e \<Rightarrow>
          (case getDeferredExecutor sf of
             Inl err \<Rightarrow> Inl err
           | Inr None \<Rightarrow>
               (case getCore sf of
                  Inl err \<Rightarrow> Inl err
                | Inr c \<Rightarrow>
                    Inr (Some (c\<lparr>executor_core := Some (Executor e), priority_core := priority\<rparr>),
                         None))
           | Inr (Some de) \<Rightarrow>
               (case setExecutor e de of
                  Inl err \<Rightarrow> Inl err
                | Inr de' \<Rightarrow>
                    (case getCore sf of
                       Inl err \<Rightarrow> Inl err
                     | Inr c \<Rightarrow>
                         Inr (Some (c\<lparr>executor_core := Some (Executor e),
                                      priority_core := priority\<rparr>),
                              Some de')))))"

text \<open>
  \<^verbatim>\<open>Future<T>::via(Executor::KeepAlive<> executor, int8_t priority) &&\<close>:
  \<^verbatim>\<open>this->setExecutor(std::move(executor), priority)\<close> and a new Future on the same
  core. There is no test of the executor. (The lvalue overload builds a Future on a
  fresh core by hand, "because this may not have an executor set due to legacy code.
  This means we can bypass the executor check in SemiFuture::via", and hands it to this
  one.)
\<close>

definition Future_via :: "nat option \<Rightarrow> int \<Rightarrow> 'a Future \<Rightarrow> exn + 'a Future" where
  "Future_via executor priority f =
     (case getCore f of
        Inl err \<Rightarrow> Inl err
      | Inr c \<Rightarrow>
          Inr (Some (c\<lparr>executor_core := map_option Executor executor,
                       priority_core := priority\<rparr>)))"

subsection \<open>A timed wait racing with the dispatch of the continuation\<close>

text \<open>
  \<^verbatim>\<open>DeferredExecutor::wait(Duration)\<close>, called by \<^verbatim>\<open>SemiFuture<T>::wait(Duration)\<close>,
  cut at its atomic operations. The waiting thread is before the first
  \<^verbatim>\<open>state_.load\<close>; before \<^verbatim>\<open>baton_ = baton\<close>; at the head of the first loop (with its
  local \<open>state\<close> and its baton); inside \<^verbatim>\<open>try_wait_for\<close>; timed out and before the
  second \<^verbatim>\<open>state_.load\<close>; at the head of the second loop; stopped by a failed
  \<^verbatim>\<open>assert\<close>; back from \<^verbatim>\<open>DeferredExecutor::wait\<close> with its result; or back from
  \<^verbatim>\<open>SemiFuture::wait\<close>.
\<close>

datatype wait_pc =
    W_load
  | W_baton State
  | W_arm State nat
  | W_wait nat
  | W_reload
  | W_revert State
  | W_failed
  | W_return bool
  | W_done bool

text \<open>
  \<^verbatim>\<open>DeferredExecutor::add(func)\<close>, by which the Core dispatches the continuation, cut
  likewise: before \<^verbatim>\<open>state_.load\<close>; before \<^verbatim>\<open>func_ = std::move(func)\<close>; at the head
  of the loop (with its local \<open>state\<close> and \<open>baton\<close>); before the
  \<^verbatim>\<open>compare_exchange\<close>; before \<^verbatim>\<open>baton->post()\<close>; stopped by a failed
  \<^verbatim>\<open>assert\<close>; or returned.
\<close>

datatype add_pc =
    A_load
  | A_func State
  | A_loop State "nat option"
  | A_cas State "nat option"
  | A_post "nat option"
  | A_failed
  | A_done

record system =
  de :: DeferredExecutor
  waiter :: wait_pc
  adder :: add_pc
  batons :: nat

definition wait_step :: "system \<Rightarrow> system" where
  "wait_step s =
     (case waiter s of
        W_load \<Rightarrow> s\<lparr>waiter := W_baton (state_de (de s))\<rparr>
      | W_baton st \<Rightarrow>
          s\<lparr>de := (de s)\<lparr>baton_de := Some (Suc (batons s))\<rparr>, batons := Suc (batons s),
            waiter := W_arm st (Suc (batons s))\<rparr>
      | W_arm st b \<Rightarrow>
          if st = HAS_FUNCTION then s\<lparr>waiter := W_return True\<rparr>
          else if st \<noteq> EMPTY then s\<lparr>waiter := W_failed\<rparr>
          else if state_de (de s) = st
          then s\<lparr>de := (de s)\<lparr>state_de := HAS_BATON\<rparr>, waiter := W_wait b\<rparr>
          else s\<lparr>waiter := W_arm (state_de (de s)) b\<rparr>
      | W_wait b \<Rightarrow>
          if b \<in> posted_de (de s)
          then (if state_de (de s) \<noteq> HAS_FUNCTION then s\<lparr>waiter := W_failed\<rparr>
                else s\<lparr>waiter := W_return True\<rparr>)
          else s
      | W_reload \<Rightarrow> s\<lparr>waiter := W_revert (state_de (de s))\<rparr>
      | W_revert st \<Rightarrow>
          if st = HAS_FUNCTION then s\<lparr>waiter := W_return True\<rparr>
          else if st \<noteq> HAS_BATON then s\<lparr>waiter := W_failed\<rparr>
          else if state_de (de s) = st
          then s\<lparr>de := (de s)\<lparr>state_de := EMPTY\<rparr>, waiter := W_return False\<rparr>
          else s\<lparr>waiter := W_revert (state_de (de s))\<rparr>
      | W_failed \<Rightarrow> s
      | W_return r \<Rightarrow>
          if r
          then (case runAndDestroy (de s) of
                  Inl err \<Rightarrow> s\<lparr>waiter := W_failed\<rparr>
                | Inr d \<Rightarrow> s\<lparr>de := d, waiter := W_done True\<rparr>)
          else s\<lparr>waiter := W_done False\<rparr>
      | W_done r \<Rightarrow> s)"

text \<open>The duration elapses: a thread inside \<^verbatim>\<open>try_wait_for\<close> on an unposted baton gives up.\<close>

definition expire_step :: "system \<Rightarrow> system" where
  "expire_step s =
     (case waiter s of
        W_wait b \<Rightarrow> if b \<in> posted_de (de s) then s else s\<lparr>waiter := W_reload\<rparr>
      | _ \<Rightarrow> s)"

definition add_step :: "system \<Rightarrow> system" where
  "add_step s =
     (case adder s of
        A_load \<Rightarrow>
          if state_de (de s) = HAS_FUNCTION
          then s\<lparr>de := (de s)\<lparr>inline_de := inline_de (de s) + 1\<rparr>, adder := A_done\<rparr>
          else s\<lparr>adder := A_func (state_de (de s))\<rparr>
      | A_func st \<Rightarrow> s\<lparr>de := (de s)\<lparr>func_de := True\<rparr>, adder := A_loop st None\<rparr>
      | A_loop st b \<Rightarrow>
          if st = HAS_EXECUTOR
          then (case executor_de (de s) of
                  None \<Rightarrow> s\<lparr>adder := A_failed\<rparr>
                | Some e \<Rightarrow>
                    s\<lparr>de := (de s)\<lparr>state_de := HAS_FUNCTION, added_de := added_de (de s) @ [e]\<rparr>,
                      adder := A_done\<rparr>)
          else if st = DETACHED
          then s\<lparr>de := (de s)\<lparr>func_de := False, deleted_de := True\<rparr>, adder := A_done\<rparr>
          else if st = HAS_BATON then s\<lparr>adder := A_cas st (baton_de (de s))\<rparr>
          else if st \<noteq> EMPTY then s\<lparr>adder := A_failed\<rparr>
          else s\<lparr>adder := A_cas st b\<rparr>
      | A_cas st b \<Rightarrow>
          if state_de (de s) = st
          then s\<lparr>de := (de s)\<lparr>state_de := HAS_FUNCTION\<rparr>, adder := A_post b\<rparr>
          else s\<lparr>adder := A_loop (state_de (de s)) b\<rparr>
      | A_post b \<Rightarrow>
          (case b of
             None \<Rightarrow> s\<lparr>adder := A_done\<rparr>
           | Some i \<Rightarrow> s\<lparr>de := (de s)\<lparr>posted_de := insert i (posted_de (de s))\<rparr>, adder := A_done\<rparr>)
      | A_failed \<Rightarrow> s
      | A_done \<Rightarrow> s)"

text \<open>
  A run is a list of who moves next. It starts with the placeholder in place and empty,
  the waiter about to call \<^verbatim>\<open>wait(dur)\<close> and the continuation not yet dispatched.
\<close>

datatype actor = Waiter | Dispatcher | Expire

definition step :: "actor \<Rightarrow> system \<Rightarrow> system" where
  "step a s = (case a of Waiter \<Rightarrow> wait_step s | Dispatcher \<Rightarrow> add_step s | Expire \<Rightarrow> expire_step s)"

definition armed :: system where
  "armed = \<lparr>de = makeDeferredExecutor, waiter = W_load, adder = A_load, batons = 0\<rparr>"

definition run_from :: "system \<Rightarrow> actor list \<Rightarrow> system" where
  "run_from s as = fold step as s"

text \<open>
  The continuation has been dispatched once \<^verbatim>\<open>add\<close> has made the state
  \<open>HAS_FUNCTION\<close>. The SemiFuture is ready once the deferred function has run, since
  it is that function which fulfils its core.
\<close>

fun dispatched :: "add_pc \<Rightarrow> bool" where
  "dispatched (A_post b) = True"
| "dispatched A_done = True"
| "dispatched pc = False"

definition isReady :: "system \<Rightarrow> bool" where
  "isReady s \<longleftrightarrow> 0 < ran_de (de s)"

text \<open>
  What holds in every state of a run: before the dispatch the placeholder is \<open>EMPTY\<close>
  or, while the waiter is between arming and reverting, \<open>HAS_BATON\<close>, and nothing has
  run; after it the state is \<open>HAS_FUNCTION\<close>, and the function has run exactly when
  the waiter has come back with \<open>True\<close>. No \<^verbatim>\<open>assert\<close> fails.
\<close>

definition wait_inv :: "system \<Rightarrow> bool" where
  "wait_inv s \<longleftrightarrow>
     added_de (de s) = [] \<and> inline_de (de s) = 0 \<and>
     (case adder s of A_load \<Rightarrow> True | A_func st \<Rightarrow> True | _ \<Rightarrow> func_de (de s)) \<and>
     (case adder s of
        A_func st \<Rightarrow> st = EMPTY \<or> st = HAS_BATON
      | A_loop st b \<Rightarrow> st = EMPTY \<or> st = HAS_BATON
      | A_cas st b \<Rightarrow> st = EMPTY \<or> st = HAS_BATON
      | A_failed \<Rightarrow> False
      | _ \<Rightarrow> True) \<and>
     (if dispatched (adder s)
      then state_de (de s) = HAS_FUNCTION \<and>
           (case waiter s of
              W_baton st \<Rightarrow> st = EMPTY \<or> st = HAS_FUNCTION
            | W_arm st b \<Rightarrow> st = EMPTY \<or> st = HAS_FUNCTION
            | W_revert st \<Rightarrow> st = HAS_BATON \<or> st = HAS_FUNCTION
            | W_failed \<Rightarrow> False
            | _ \<Rightarrow> True) \<and>
           ran_de (de s) = (if waiter s = W_done True then 1 else 0) \<and>
           deleted_de (de s) = (waiter s = W_done True)
      else posted_de (de s) = {} \<and> ran_de (de s) = 0 \<and> \<not> deleted_de (de s) \<and>
           (case waiter s of
              W_load \<Rightarrow> state_de (de s) = EMPTY
            | W_baton st \<Rightarrow> st = EMPTY \<and> state_de (de s) = EMPTY
            | W_arm st b \<Rightarrow> st = EMPTY \<and> state_de (de s) = EMPTY
            | W_wait b \<Rightarrow> state_de (de s) = HAS_BATON
            | W_reload \<Rightarrow> state_de (de s) = HAS_BATON
            | W_revert st \<Rightarrow> st = HAS_BATON \<and> state_de (de s) = HAS_BATON
            | W_failed \<Rightarrow> False
            | W_return r \<Rightarrow> \<not> r \<and> state_de (de s) = EMPTY
            | W_done r \<Rightarrow> \<not> r \<and> state_de (de s) = EMPTY))"

text \<open>
  An executor attaches with \<^verbatim>\<open>setExecutor\<close> and, being an executor, runs the task
  \<^verbatim>\<open>runAndDestroy\<close> if it is given it.
\<close>

definition attach_executor :: "nat \<Rightarrow> DeferredExecutor \<Rightarrow> exn + DeferredExecutor" where
  "attach_executor e d =
     (case setExecutor e d of
        Inl err \<Rightarrow> Inl err
      | Inr d1 \<Rightarrow> if added_de d1 = [] then Inr d1 else runAndDestroy d1)"

text \<open>
  How many steps of its own a thread still needs at most: \<^verbatim>\<open>add\<close> until it has
  dispatched, while the placeholder stays \<open>EMPTY\<close>; the waiter until it is back, once
  the continuation is dispatched.
\<close>

fun add_rank :: "add_pc \<Rightarrow> nat" where
  "add_rank A_load = 4"
| "add_rank (A_func st) = (if st = EMPTY then 3 else 5)"
| "add_rank (A_loop st b) = (if st = EMPTY then 2 else 4)"
| "add_rank (A_cas st b) = (if st = EMPTY then 1 else 3)"
| "add_rank pc = 0"

fun wait_rank :: "wait_pc \<Rightarrow> nat" where
  "wait_rank W_load = 4"
| "wait_rank (W_baton st) = (if st = HAS_FUNCTION then 3 else 4)"
| "wait_rank (W_arm st b) = (if st = HAS_FUNCTION then 2 else 3)"
| "wait_rank (W_wait b) = 2"
| "wait_rank W_reload = 3"
| "wait_rank (W_revert st) = (if st = HAS_FUNCTION then 2 else 3)"
| "wait_rank (W_return r) = 1"
| "wait_rank pc = 0"

section \<open>then, reduce and unorderedReduce\<close>

text \<open>
  \<^verbatim>\<open>makeTryWith\<close> runs a function and catches what it throws. A user function is
  modelled with a result in \<open>exn + 'a\<close>: \<open>Inl e\<close> when it throws \<open>e\<close>.
\<close>

definition makeTryWith :: "exn + 'a \<Rightarrow> 'a Try" where
  "makeTryWith r = (case r of Inl e \<Rightarrow> Exception e | Inr x \<Rightarrow> Value x)"

text \<open>
  \<^verbatim>\<open>FutureBase<T>::thenImplementation\<close>, the variant for a function that returns a
  value: what the callback it installs puts into the new promise, given the result \<open>t\<close>
  of this future. \<open>then_Try\<close> is the instance \<^verbatim>\<open>isTry = true\<close> (the function takes
  the \<^verbatim>\<open>Try\<close>), \<open>then_value\<close> the instance \<^verbatim>\<open>isTry = false\<close> (an exception
  bypasses the function, which otherwise gets \<^verbatim>\<open>t.value()\<close>).
\<close>

definition then_Try :: "('a Try \<Rightarrow> exn + 'b) \<Rightarrow> 'a Try \<Rightarrow> 'b Try" where
  "then_Try func t = makeTryWith (func t)"

definition then_value :: "('a \<Rightarrow> exn + 'b) \<Rightarrow> 'a Try \<Rightarrow> 'b Try" where
  "then_value func t =
     (if hasException t
      then (case exception_t t of Inl e \<Rightarrow> Exception e | Inr e \<Rightarrow> Exception e)
      else makeTryWith (case value_t t of Inl e \<Rightarrow> Inl e | Inr x \<Rightarrow> func x))"

text \<open>
  Modelled from the spec: the variadic \<^verbatim>\<open>collectAllSemiFuture(f, g)\<close>, whose context
  \<^verbatim>\<open>CollectAllVariadicContext\<close> is not among the sources. As \<^verbatim>\<open>collectAll\<close> over a
  range, it completes when both inputs have, with the tuple of their results, and never
  with an error of its own.
\<close>

definition collectAllSemiFuture2 :: "'a Try \<Rightarrow> 'b Try \<Rightarrow> ('a Try \<times> 'b Try) Try" where
  "collectAllSemiFuture2 t0 t1 = Value (t0, t1)"

text \<open>
  A call \<^verbatim>\<open>func(a, b)\<close> whose arguments may throw. C++ leaves the order in which the
  two arguments are evaluated to the compiler: \<open>left_first\<close> says which it is.
\<close>

definition call2 :: "bool \<Rightarrow> ('a \<Rightarrow> 'c \<Rightarrow> exn + 'r) \<Rightarrow> exn + 'a \<Rightarrow> exn + 'c \<Rightarrow> exn + 'r" where
  "call2 left_first func a b =
     (if left_first
      then (case a of
              Inl e \<Rightarrow> Inl e
            | Inr x \<Rightarrow> (case b of Inl e \<Rightarrow> Inl e | Inr y \<Rightarrow> func x y))
      else (case b of
              Inl e \<Rightarrow> Inl e
            | Inr y \<Rightarrow> (case a of Inl e \<Rightarrow> Inl e | Inr x \<Rightarrow> func x y)))"

text \<open>
  \<^verbatim>\<open>reduce(first, last, initial, func)\<close>. The input futures are given by their
  results, and the returned future by the result it completes with. \<open>get\<close> is
  \<^verbatim>\<open>t.template get<IsTry::value, Arg&&>()\<close>: \<open>value_t\<close> when \<open>func\<close> takes the value
  of an input, \<open>Inr\<close> when it takes its \<^verbatim>\<open>Try\<close>.
\<close>

definition reduce ::
  "bool \<Rightarrow> 'b Try list \<Rightarrow> 'a \<Rightarrow> ('a \<Rightarrow> 'c \<Rightarrow> exn + 'a) \<Rightarrow> ('b Try \<Rightarrow> exn + 'c) \<Rightarrow> 'a Try" where
  "reduce left_first futures initial func get =
     (case futures of
        [] \<Rightarrow> Value initial
      | head # rest \<Rightarrow>
          fold (\<lambda>next f.
                  then_value (\<lambda>(t0, t1). call2 left_first func (value_t t0) (get t1))
                    (collectAllSemiFuture2 f next))
            rest
            (then_Try (\<lambda>h. call2 left_first func (Inr initial) (get h)) head))"

subsection \<open>unorderedReduce\<close>

text \<open>
  Modelled from the spec: the cores of the futures that \<^verbatim>\<open>unorderedReduce\<close> chains
  (\<^verbatim>\<open>detail/Core.h\<close> is not among the sources). Section 4.1: a Core holds an optional
  result and an optional callback, each written once by whoever comes first, and the one
  who comes second runs the callback on the result; with no executor bound it runs
  inline. The cores live in a heap and are told apart by their position in it. Two kinds
  of callback are installed: the reducer \<^verbatim>\<open>[ctx, mp, mt](Try<T>&& v)\<close>, which holds
  the promise \<open>mp\<close> (by the number of its core) and the result \<open>mt\<close> of an input, and
  the final one, \<^verbatim>\<open>[ctx](Try<T>&& t2) { ctx->promise_.setValue(std::move(t2)); }\<close>.
\<close>

datatype 'b ur_callback = Reducer nat "'b Try" | Final

record ('a, 'b) ur_core =
  result_uc :: "'a Try option"
  callback_uc :: "'b ur_callback option"

text \<open>
  A callback of \<^verbatim>\<open>mapSetCallback\<close> has not started, or has left the section under the
  spin lock and is about to call \<^verbatim>\<open>f.setCallback_\<close> (with the cores of \<open>f\<close> and of
  \<open>p\<close>), or has returned.
\<close>

datatype ur_pc = U_lock | U_chain nat nat | U_done

text \<open>
  \<^verbatim>\<open>struct UnorderedReduceContext\<close> (\<open>memo_\<close> by the number of its core,
  \<open>numThens_\<close>, \<open>numFutures_\<close>, \<open>promise_\<close>), the heap of cores, and where each
  callback is. \<open>faults_ur\<close> counts what must not happen: a promise fulfilled twice, a
  core that does not exist, a cascade of callbacks longer than the heap.
\<close>

record ('a, 'b) ur_state =
  heap_ur :: "('a, 'b) ur_core list"
  memo_ur :: nat
  numThens_ur :: nat
  numFutures_ur :: nat
  promise_ur :: "'a Promise"
  faults_ur :: nat
  pcs_ur :: "nat \<Rightarrow> ur_pc"

definition fault :: "('a, 'b) ur_state \<Rightarrow> ('a, 'b) ur_state" where
  "fault s = s\<lparr>faults_ur := Suc (faults_ur s)\<rparr>"

text \<open>
  What the reducer puts into its promise \<open>mp\<close> when the previous memo completes with
  \<open>v\<close>: \<^verbatim>\<open>func_(v.value(), mt.get<IsTry, Arg&&>())\<close> with every exception caught, or
  \<open>v\<close> itself when \<open>v\<close> holds no value.
\<close>

definition reducer ::
  "('a \<Rightarrow> 'c \<Rightarrow> exn + 'a) \<Rightarrow> ('b Try \<Rightarrow> exn + 'c) \<Rightarrow> 'b Try \<Rightarrow> 'a Try \<Rightarrow> 'a Try" where
  "reducer func get mt v =
     (if hasValue v
      then makeTryWith
             (case value_t v of
                Inl e \<Rightarrow> Inl e
              | Inr a \<Rightarrow> (case get mt of Inl e \<Rightarrow> Inl e | Inr x \<Rightarrow> func a x))
      else v)"

text \<open>
  Running a callback on a result. The reducer fulfils the core of its promise, which
  runs the callback installed there, if any, and so on along the chain; the first
  argument bounds the length of this cascade.
\<close>

fun deliver_ur ::
  "nat \<Rightarrow> ('a \<Rightarrow> 'c \<Rightarrow> exn + 'a) \<Rightarrow> ('b Try \<Rightarrow> exn + 'c) \<Rightarrow> 'b ur_callback \<Rightarrow> 'a Try \<Rightarrow>
   ('a, 'b) ur_state \<Rightarrow> ('a, 'b) ur_state" where
  "deliver_ur 0 func get cb v s = fault s"
| "deliver_ur (Suc k) func get Final v s = s\<lparr>promise_ur := setTry v (promise_ur s)\<rparr>"
| "deliver_ur (Suc k) func get (Reducer mp mt) v s =
     (if length (heap_ur s) \<le> mp then fault s
      else (case result_uc (heap_ur s ! mp) of
              Some r \<Rightarrow> fault s
            | None \<Rightarrow>
                (let r = reducer func get mt v;
                     s1 = s\<lparr>heap_ur := (heap_ur s)[mp := (heap_ur s ! mp)\<lparr>result_uc := Some r\<rparr>]\<rparr>
                 in case callback_uc (heap_ur s ! mp) of
                      None \<Rightarrow> s1
                    | Some cb \<Rightarrow> deliver_ur k func get cb r s1)))"

text \<open>\<^verbatim>\<open>setCallback_\<close> on core \<open>c\<close>: store the callback, and run it if the result is there.\<close>

definition setCallback_ur ::
  "('a \<Rightarrow> 'c \<Rightarrow> exn + 'a) \<Rightarrow> ('b Try \<Rightarrow> exn + 'c) \<Rightarrow> nat \<Rightarrow> 'b ur_callback \<Rightarrow>
   ('a, 'b) ur_state \<Rightarrow> ('a, 'b) ur_state" where
  "setCallback_ur func get c cb s =
     (if length (heap_ur s) \<le> c then fault s
      else (case callback_uc (heap_ur s ! c) of
              Some old \<Rightarrow> fault s
            | None \<Rightarrow>
                (let s1 = s\<lparr>heap_ur := (heap_ur s)[c := (heap_ur s ! c)\<lparr>callback_uc := Some cb\<rparr>]\<rparr>
                 in case result_uc (heap_ur s ! c) of
                      None \<Rightarrow> s1
                    | Some v \<Rightarrow> deliver_ur (length (heap_ur s)) func get cb v s1)))"

text \<open>
  The callback of input future \<open>i\<close>, whose result is \<open>t\<close>, in its two steps. First the
  new promise \<open>p\<close> with its future and the section under the lock: \<open>f\<close> becomes the
  old memo, the memo the future of \<open>p\<close>, and the last callback to get here installs the
  final callback on the memo. Then, outside the lock, the reducer is installed on \<open>f\<close>.
\<close>

definition ur_lock ::
  "('a \<Rightarrow> 'c \<Rightarrow> exn + 'a) \<Rightarrow> ('b Try \<Rightarrow> exn + 'c) \<Rightarrow> nat \<Rightarrow> ('a, 'b) ur_state \<Rightarrow> ('a, 'b) ur_state" where
  "ur_lock func get i s =
     (let p = length (heap_ur s);
          f = memo_ur s;
          s1 = s\<lparr>heap_ur := heap_ur s @ [\<lparr>result_uc = None, callback_uc = None\<rparr>],
                 memo_ur := p, numThens_ur := numThens_ur s + 1,
                 pcs_ur := (pcs_ur s)(i := U_chain f p)\<rparr>
      in if numThens_ur s1 = numFutures_ur s1 then setCallback_ur func get (memo_ur s1) Final s1
         else s1)"

definition ur_chain ::
  "('a \<Rightarrow> 'c \<Rightarrow> exn + 'a) \<Rightarrow> ('b Try \<Rightarrow> exn + 'c) \<Rightarrow> 'b Try \<Rightarrow> nat \<Rightarrow> nat \<Rightarrow> nat \<Rightarrow>
   ('a, 'b) ur_state \<Rightarrow> ('a, 'b) ur_state" where
  "ur_chain func get t i f p s =
     setCallback_ur func get f (Reducer p t) (s\<lparr>pcs_ur := (pcs_ur s)(i := U_done)\<rparr>)"

definition ur_step ::
  "('a \<Rightarrow> 'c \<Rightarrow> exn + 'a) \<Rightarrow> ('b Try \<Rightarrow> exn + 'c) \<Rightarrow> 'b Try list \<Rightarrow> nat \<Rightarrow>
   ('a, 'b) ur_state \<Rightarrow> ('a, 'b) ur_state" where
  "ur_step func get ts i s =
     (if length ts \<le> i then s
      else (case pcs_ur s i of
              U_lock \<Rightarrow> ur_lock func get i s
            | U_chain f p \<Rightarrow> ur_chain func get (ts ! i) i f p s
            | U_done \<Rightarrow> s))"

text \<open>
  \<^verbatim>\<open>unorderedReduce(first, last, initial, func)\<close>: for an empty range a ready future
  with \<open>initial\<close>; otherwise the context, whose memo starts as the ready future
  \<^verbatim>\<open>makeFuture<T>(std::move(memo))\<close>, and the callbacks, which take their steps in
  the order \<open>sched\<close>. The result is what the returned future holds then.
\<close>

definition unorderedReduce_run ::
  "'b Try list \<Rightarrow> 'a \<Rightarrow> ('a \<Rightarrow> 'c \<Rightarrow> exn + 'a) \<Rightarrow> ('b Try \<Rightarrow> exn + 'c) \<Rightarrow> nat list \<Rightarrow>
   ('a, 'b) ur_state" where
  "unorderedReduce_run ts initial func get sched =
     fold (ur_step func get ts) sched
       \<lparr>heap_ur = [\<lparr>result_uc = Some (Value initial), callback_uc = None\<rparr>], memo_ur = 0,
        numThens_ur = 0, numFutures_ur = length ts, promise_ur = makePromise, faults_ur = 0,
        pcs_ur = (\<lambda>i. U_lock)\<rparr>"

definition unorderedReduce ::
  "'b Try list \<Rightarrow> 'a \<Rightarrow> ('a \<Rightarrow> 'c \<Rightarrow> exn + 'a) \<Rightarrow> ('b Try \<Rightarrow> exn + 'c) \<Rightarrow> nat list \<Rightarrow>
   'a Try option" where
  "unorderedReduce ts initial func get sched =
     (if ts = [] then Some (Value initial)
      else core_result (promise_ur (unorderedReduce_run ts initial func get sched)))"

text \<open>
  The schedules in which every callback takes both of its steps: each of the \<open>n\<close>
  input futures completes and its callback runs to its end. The steps of different
  callbacks come in any order, so the inputs complete in any order and the callbacks
  may overlap.
\<close>

definition ur_schedule :: "nat \<Rightarrow> nat list \<Rightarrow> bool" where
  "ur_schedule n sched \<longleftrightarrow> set sched \<subseteq> {..<n} \<and> (\<forall>i<n. 2 \<le> count_list sched i)"

text \<open>
  For the proofs: the value of the fold after the first \<open>k\<close> callbacks in the order
  \<open>L\<close> in which they took the lock, and the heap in which the cores up to \<open>u\<close> have
  their result, the callbacks for which \<open>P\<close> holds have installed their reducer, and
  the last core (if all callbacks have taken the lock) has the final callback.
\<close>

definition ur_val ::
  "('a \<Rightarrow> 'c \<Rightarrow> exn + 'a) \<Rightarrow> ('b Try \<Rightarrow> exn + 'c) \<Rightarrow> 'b Try list \<Rightarrow> 'a \<Rightarrow> nat list \<Rightarrow> nat \<Rightarrow> 'a Try" where
  "ur_val func get ts initial L k =
     foldl (\<lambda>v mt. reducer func get mt v) (Value initial) (map ((!) ts) (take k L))"

definition ur_heap ::
  "('a \<Rightarrow> 'c \<Rightarrow> exn + 'a) \<Rightarrow> ('b Try \<Rightarrow> exn + 'c) \<Rightarrow> 'b Try list \<Rightarrow> 'a \<Rightarrow> nat list \<Rightarrow>
   (nat \<Rightarrow> bool) \<Rightarrow> nat \<Rightarrow> ('a, 'b) ur_core list" where
  "ur_heap func get ts initial L P u =
     map (\<lambda>k. \<lparr>result_uc = (if k \<le> u then Some (ur_val func get ts initial L k) else None),
               callback_uc = (if k < length L \<and> P k then Some (Reducer (Suc k) (ts ! (L ! k)))
                              else if k = length ts then Some Final else None)\<rparr>)
       [0..<Suc (length L)]"

text \<open>
  How far the results have come: the number of callbacks, from the first in lock order
  on, that have installed their reducer without a gap. And the place of a callback in
  the lock order.
\<close>

definition ur_upto :: "(nat \<Rightarrow> bool) \<Rightarrow> nat \<Rightarrow> nat" where
  "ur_upto P m = length (takeWhile P [0..<m])"

definition pos :: "nat list \<Rightarrow> nat \<Rightarrow> nat" where
  "pos L i = length (takeWhile (\<lambda>j. j \<noteq> i) L)"

definition ur_chained :: "nat list \<Rightarrow> nat \<Rightarrow> bool" where
  "ur_chained sched k \<longleftrightarrow> 2 \<le> count_list sched (gate_order sched ! k)"

text \<open>The state of a run after the schedule \<open>sched\<close>.\<close>

definition ur_inv ::
  "('a \<Rightarrow> 'c \<Rightarrow> exn + 'a) \<Rightarrow> ('b Try \<Rightarrow> exn + 'c) \<Rightarrow> 'b Try list \<Rightarrow> 'a \<Rightarrow> nat list \<Rightarrow>
   ('a, 'b) ur_state \<Rightarrow> bool" where
  "ur_inv func get ts initial sched s \<longleftrightarrow>
     heap_ur s = ur_heap func get ts initial (gate_order sched) (ur_chained sched)
                   (ur_upto (ur_chained sched) (length (gate_order sched))) \<and>
     memo_ur s = length (gate_order sched) \<and>
     numThens_ur s = length (gate_order sched) \<and>
     numFutures_ur s = length ts \<and>
     promise_ur s =
       (if ur_upto (ur_chained sched) (length (gate_order sched)) = length ts
        then \<lparr>core_result = Some (ur_val func get ts initial (gate_order sched) (length ts)),
              rejected = 0\<rparr>
        else makePromise) \<and>
     faults_ur s = 0 \<and>
     (\<forall>i<length ts.
        pcs_ur s i =
          (if i \<notin> set sched then U_lock
           else if count_list sched i = 1
           then U_chain (pos (gate_order sched) i) (Suc (pos (gate_order sched) i))
           else U_done))"

section \<open>within\<close>

text \<open>
  \<^verbatim>\<open>struct Context\<close> of \<^verbatim>\<open>withinImplementation\<close>: the error to fail with, the
  promise of the result and the atomic token. \<open>raised_wc\<close> records the interrupts
  raised on \<open>thisFuture\<close>, the future of the source arm.
\<close>

record 'a within_Context =
  exception_wc :: exn
  promise_wc :: "'a Promise"
  token_wc :: bool
  raised_wc :: "exn list"

text \<open>
  The context is held by a \<^verbatim>\<open>shared_ptr\<close> in the local variable and in the callback
  of the source future; the callback of the timer holds a \<^verbatim>\<open>weak_ptr\<close> only.
\<close>

record 'a within_state =
  ctx_w :: "'a within_Context"
  owners_w :: nat

text \<open>
  The source arm \<^verbatim>\<open>[ctx](Try<T>&& t) { if (!ctx->token.exchange(true)) ... }\<close> on the
  result \<open>t\<close> of the source, and the body of the timer arm once the \<^verbatim>\<open>weak_ptr\<close> is
  locked, on the result \<open>tu\<close> of the future of \<^verbatim>\<open>tk->after(dur)\<close>.
\<close>

definition source_arm :: "'a Try \<Rightarrow> 'a within_Context \<Rightarrow> 'a within_Context" where
  "source_arm t c =
     (if \<not> token_wc c then c\<lparr>token_wc := True, promise_wc := setTry t (promise_wc c)\<rparr> else c)"

definition timer_arm :: "unit Try \<Rightarrow> 'a within_Context \<Rightarrow> 'a within_Context" where
  "timer_arm tu c =
     (let c1 = c\<lparr>raised_wc := raised_wc c @ [FutureTimeout]\<rparr> in
      if \<not> token_wc c1
      then (if hasException tu
            then (case exception_t tu of
                    Inl e \<Rightarrow> c1\<lparr>token_wc := True\<rparr>
                  | Inr e \<Rightarrow> c1\<lparr>token_wc := True, promise_wc := setException e (promise_wc c1)\<rparr>)
            else c1\<lparr>token_wc := True,
                    promise_wc := setException (exception_wc c1) (promise_wc c1)\<rparr>)
      else c1)"

definition release_w :: "'a within_state \<Rightarrow> 'a within_state" where
  "release_w s =
     (if owners_w s = 1
      then \<lparr>ctx_w = (ctx_w s)\<lparr>promise_wc := destroyPromise (promise_wc (ctx_w s))\<rparr>, owners_w = 0\<rparr>
      else s\<lparr>owners_w := owners_w s - 1\<rparr>)"

text \<open>
  What happens after the two callbacks are installed: \<^verbatim>\<open>withinImplementation\<close> returns
  (its local pointer goes), the source future completes (its callback runs and is
  destroyed), or the timer future completes with \<open>tu\<close> (its callback runs; it does
  nothing when the context is gone).
\<close>

datatype within_event = Returns | SourceCompletes | TimerFires "unit Try"

definition within_step :: "'a Try \<Rightarrow> within_event \<Rightarrow> 'a within_state \<Rightarrow> 'a within_state" where
  "within_step t ev s =
     (case ev of
        Returns \<Rightarrow> release_w s
      | SourceCompletes \<Rightarrow> release_w (s\<lparr>ctx_w := source_arm t (ctx_w s)\<rparr>)
      | TimerFires tu \<Rightarrow> if owners_w s = 0 then s else s\<lparr>ctx_w := timer_arm tu (ctx_w s)\<rparr>)"

definition within_run :: "exn \<Rightarrow> 'a Try \<Rightarrow> within_event list \<Rightarrow> 'a within_state" where
  "within_run e t evs =
     fold (within_step t) evs
       \<lparr>ctx_w = \<lparr>exception_wc = e, promise_wc = makePromise, token_wc = False, raised_wc = []\<rparr>,
        owners_w = 2\<rparr>"

text \<open>
  \<^verbatim>\<open>withinImplementation(dur, e, tk)\<close>: without a timekeeper (none passed and no
  singleton) the result is a ready future with \<^verbatim>\<open>FutureNoTimekeeper\<close>; otherwise the
  future of the context's promise, here after the events \<open>evs\<close>. \<open>t\<close> is the result the
  source completes with.
\<close>

definition withinImplementation :: "bool \<Rightarrow> exn \<Rightarrow> 'a Try \<Rightarrow> within_event list \<Rightarrow> 'a Try option" where
  "withinImplementation timekeeper e t evs =
     (if \<not> timekeeper then Some (Exception FutureNoTimekeeper)
      else core_result (promise_wc (ctx_w (within_run e t evs))))"

text \<open>
  \<^verbatim>\<open>Future<T>::within(dur, e, tk)\<close> returns this future itself when it is ready, and
  \<^verbatim>\<open>within(dur, tk)\<close> is \<^verbatim>\<open>within(dur, FutureTimeout(), tk)\<close>.
\<close>

definition within_e :: "bool \<Rightarrow> bool \<Rightarrow> exn \<Rightarrow> 'a Try \<Rightarrow> within_event list \<Rightarrow> 'a Try option" where
  "within_e ready timekeeper e t evs =
     (if ready then Some t else withinImplementation timekeeper e t evs)"

definition within :: "bool \<Rightarrow> bool \<Rightarrow> 'a Try \<Rightarrow> within_event list \<Rightarrow> 'a Try option" where
  "within ready timekeeper t evs = within_e ready timekeeper FutureTimeout t evs"

text \<open>
  The arm that comes first in a list of events, if any; and what that arm puts into the
  promise: the source arm the result of the source, the timer arm the error of the timer
  future if that failed, and the error given to \<^verbatim>\<open>within\<close> otherwise.
\<close>

fun first_arm :: "within_event list \<Rightarrow> within_event option" where
  "first_arm [] = None"
| "first_arm (Returns # evs) = first_arm evs"
| "first_arm (ev # evs) = Some ev"

definition arm_result :: "exn \<Rightarrow> 'a Try \<Rightarrow> within_event option \<Rightarrow> 'a Try option" where
  "arm_result e t a =
     (case a of
        None \<Rightarrow> None
      | Some Returns \<Rightarrow> None
      | Some SourceCompletes \<Rightarrow> Some t
      | Some (TimerFires tu) \<Rightarrow> Some (Exception (case tu of Exception e' \<Rightarrow> e' | _ \<Rightarrow> e)))"

text \<open>A state in which one arm has taken the token and fulfilled the promise.\<close>

definition settled :: "'a within_state \<Rightarrow> bool" where
  "settled s \<longleftrightarrow> token_wc (ctx_w s) \<and> core_result (promise_wc (ctx_w s)) \<noteq> None"

section \<open>Properties\<close>

subsection \<open>collectN: fewer futures than requested\<close>

lemma setTry_fresh [simp]:
  "core_result pr = None \<Longrightarrow> setTry t pr = pr\<lparr>core_result := Some t\<rparr>"
  by (simp add: setTry_def)

lemma fold_none_installed:
  "fold (\<lambda>i s. if i \<in> set [] then f i s else s) sched s0 = s0"
  by (induction sched) simp_all

lemma run_collectN_short:
  "length ts < n \<Longrightarrow>
   run_collectN n ts sched = \<lparr>ctx_cn = fst (collectN ts n), pcs_cn = (\<lambda>i. AtGate)\<rparr>"
  using fold_none_installed [of "\<lambda>i. callbackN n (ts ! i) i" sched]
  by (simp add: run_collectN_def collectN_def Let_def)

text \<open>
  C10. With fewer input futures than the requested count, \<^verbatim>\<open>collectN\<close> fulfils the
  returned future at once with the runtime error "Not enough futures", installs no
  callback on any input future, and no later completion of an input changes anything.
\<close>

theorem collectN_not_enough_futures:
  "length ts < n \<Longrightarrow>
     snd (collectN ts n) = [] \<and>
     p_cn (fst (collectN ts n)) =
       \<lparr>core_result = Some (Exception (RuntimeError ''Not enough futures'')), rejected = 0\<rparr> \<and>
     p_cn (ctx_cn (run_collectN n ts sched)) =
       \<lparr>core_result = Some (Exception (RuntimeError ''Not enough futures'')), rejected = 0\<rparr> \<and>
     pcs_cn (run_collectN n ts sched) = (\<lambda>i. AtGate)"
  by (simp add: run_collectN_short)
     (simp add: collectN_def makeCollectNContext_def setException_def makePromise_def)

theorem collectN_not_enough_futures_witness:
  "length [Value (1::nat), Exception BrokenPromise] < (3::nat) \<and>
   snd (collectN [Value (1::nat), Exception BrokenPromise] 3) = [] \<and>
   p_cn (ctx_cn (run_collectN 3 [Value (1::nat), Exception BrokenPromise] [0, 1, 0, 1])) =
     \<lparr>core_result = Some (Exception (RuntimeError ''Not enough futures'')), rejected = 0\<rparr>"
  using collectN_not_enough_futures
    [of "[Value (1::nat), Exception BrokenPromise]" 3 "[0, 1, 0, 1]"]
  by simp

subsection \<open>collectN: the first n completers\<close>

lemma gate_order_snoc:
  "gate_order (sched @ [i]) = (if i \<in> set sched then gate_order sched else gate_order sched @ [i])"
  by (simp add: gate_order_def)

lemma gate_order_set [simp]: "set (gate_order sched) = set sched"
  by (simp add: gate_order_def)

lemma gate_order_distinct [simp]: "distinct (gate_order sched)"
  by (simp add: gate_order_def)

lemma gate_order_nil [simp]: "gate_order [] = []"
  by (simp add: gate_order_def)

lemma run_collectN_nil:
  "n \<le> length ts \<Longrightarrow> run_collectN n ts [] =
     \<lparr>ctx_cn = makeCollectNContext (length ts), pcs_cn = (\<lambda>i. AtGate)\<rparr>"
  by (simp add: run_collectN_def collectN_def Let_def)

lemma run_collectN_snoc:
  "n \<le> length ts \<Longrightarrow> run_collectN n ts (sched @ [i]) = stepN n ts i (run_collectN n ts sched)"
  by (simp add: run_collectN_def collectN_def Let_def stepN_def)

lemma winners_snoc:
  "winners n (sched @ [i]) =
     (if i \<in> set sched \<or> n \<le> length (gate_order sched) then winners n sched
      else insert i (winners n sched))"
  by (auto simp: winners_def gate_order_snoc)

lemma winners_subset: "winners n sched \<subseteq> set sched"
  by (auto simp: winners_def dest: in_set_takeD)

lemma winners_finite [simp]: "finite (winners n sched)"
  by (simp add: winners_def)

lemma winners_card: "card (winners n sched) = min n (length (gate_order sched))"
  by (simp add: winners_def distinct_card)

lemma inv_init: "0 < n \<Longrightarrow> n \<le> length ts \<Longrightarrow> collectN_inv n ts [] (run_collectN n ts [])"
  by (simp add: run_collectN_nil collectN_inv_def makeCollectNContext_def makePromise_def winners_def)

lemma card_stored_move:
  assumes "finite W" "i \<in> W" "pcs i \<notin> stored_pcs" "x \<in> stored_pcs"
  shows "card {j \<in> W. (pcs(i := x)) j \<in> stored_pcs} = Suc (card {j \<in> W. pcs j \<in> stored_pcs})"
proof -
  have "{j \<in> W. (pcs(i := x)) j \<in> stored_pcs} = insert i {j \<in> W. pcs j \<in> stored_pcs}"
    using assms by auto
  moreover have "i \<notin> {j \<in> W. pcs j \<in> stored_pcs}" using assms by simp
  moreover have "finite {j \<in> W. pcs j \<in> stored_pcs}" using assms by simp
  ultimately show ?thesis by simp
qed

lemma card_stored_same:
  assumes "pcs i \<notin> stored_pcs" "x \<notin> stored_pcs"
  shows "{j \<in> insert i W. (pcs(i := x)) j \<in> stored_pcs} = {j \<in> W. pcs j \<in> stored_pcs}"
    and "{j \<in> W. (pcs(i := x)) j \<in> stored_pcs} = {j \<in> W. pcs j \<in> stored_pcs}"
  using assms by auto

lemma card_stored_le: "card {j \<in> winners n sched. P j} \<le> n"
proof -
  have "card {j \<in> winners n sched. P j} \<le> card (winners n sched)"
    by (rule card_mono) auto
  then show ?thesis by (simp add: winners_card)
qed

lemma card_stored_full:
  assumes "card {j \<in> winners n sched. P j} = n"
  shows "n \<le> length (gate_order sched)" and "\<forall>j \<in> winners n sched. P j"
proof -
  have le: "card {j \<in> winners n sched. P j} \<le> card (winners n sched)"
    by (rule card_mono) auto
  then show "n \<le> length (gate_order sched)" using assms by (simp add: winners_card)
  have "card (winners n sched) \<le> n" by (simp add: winners_card)
  then have "card {j \<in> winners n sched. P j} = card (winners n sched)" using le assms by simp
  then have "{j \<in> winners n sched. P j} = winners n sched"
    by (intro card_subset_eq) auto
  then show "\<forall>j \<in> winners n sched. P j" by auto
qed

lemma in_winners_iff:
  "i \<in> winners n sched \<longleftrightarrow> i \<in> set sched \<and> i \<notin> set (drop n (gate_order sched))"
proof -
  have d: "distinct (take n (gate_order sched) @ drop n (gate_order sched))" by simp
  have s: "set (take n (gate_order sched)) \<union> set (drop n (gate_order sched)) = set sched"
    by (metis append_take_drop_id gate_order_set set_append)
  show ?thesis using d s unfolding winners_def distinct_append by auto
qed

lemma complete_loop_upt:
  "complete_loop (map f [k..<m]) k =
     map (\<lambda>i. (i, the (f i))) (filter (\<lambda>i. f i \<noteq> None) [k..<m])"
proof (induction "m - k" arbitrary: k)
  case 0
  then show ?case by simp
next
  case (Suc d)
  then have km: "k < m" by simp
  have "d = m - Suc k" using Suc by simp
  from Suc(1)[OF this] show ?case using km
    by (cases "f k") (simp_all add: upt_conv_Cons)
qed

lemma collectN_invI:
  assumes "length (v_cn (ctx_cn s)) = length ts"
    and "\<And>i. i < length ts \<Longrightarrow> (pcs_cn s i = AtGate) = (i \<notin> set sched)"
    and "completed_cn (ctx_cn s) = length (gate_order sched)"
    and "\<And>i. i < length ts \<Longrightarrow> (pcs_cn s i = RetGate) = (i \<in> set (drop n (gate_order sched)))"
    and "\<And>i. i < length ts \<Longrightarrow> v_cn (ctx_cn s) ! i =
           (if pcs_cn s i \<in> {AtCount, AtComplete, RetCount, RetComplete} then Some (ts ! i) else None)"
    and "stored_cn (ctx_cn s) = card {i \<in> winners n sched. pcs_cn s i \<in> stored_pcs}"
    and "rejected (p_cn (ctx_cn s)) = 0"
    and "\<And>i. i < length ts \<Longrightarrow> pcs_cn s i \<in> {AtComplete, RetComplete} \<Longrightarrow> stored_cn (ctx_cn s) = n"
    and "\<And>i j. i < length ts \<Longrightarrow> j < length ts \<Longrightarrow> pcs_cn s i \<in> {AtComplete, RetComplete} \<Longrightarrow>
           pcs_cn s j \<in> {AtComplete, RetComplete} \<Longrightarrow> i = j"
    and "stored_cn (ctx_cn s) = n \<Longrightarrow> \<exists>i<length ts. pcs_cn s i \<in> {AtComplete, RetComplete}"
    and "core_result (p_cn (ctx_cn s)) =
        (if \<exists>i<length ts. pcs_cn s i = RetComplete then Some (Value (result_of n ts sched)) else None)"
  shows "collectN_inv n ts sched s"
  unfolding collectN_inv_def Let_def
  apply (intro conjI allI impI)
            apply (rule assms(1))
           apply (erule assms(2))
          apply (rule assms(3))
         apply (erule assms(4))
        apply (erule assms(5))
       apply (rule assms(6))
      apply (rule assms(7))
     apply (erule assms(8), assumption)
    apply (elim conjE, erule (3) assms(9))
   apply (erule assms(10))
  apply (rule assms(11))
  done

lemma inv_len: "collectN_inv n ts sched s \<Longrightarrow> length (v_cn (ctx_cn s)) = length ts"
  unfolding collectN_inv_def Let_def by blast

lemma inv_gate: "collectN_inv n ts sched s \<Longrightarrow> i < length ts \<Longrightarrow> (pcs_cn s i = AtGate) = (i \<notin> set sched)"
  unfolding collectN_inv_def Let_def by blast

lemma inv_completed: "collectN_inv n ts sched s \<Longrightarrow> completed_cn (ctx_cn s) = length (gate_order sched)"
  unfolding collectN_inv_def Let_def by blast

lemma inv_retgate: "collectN_inv n ts sched s \<Longrightarrow> i < length ts \<Longrightarrow>
    (pcs_cn s i = RetGate) = (i \<in> set (drop n (gate_order sched)))"
  unfolding collectN_inv_def Let_def by blast

lemma inv_v: "collectN_inv n ts sched s \<Longrightarrow> i < length ts \<Longrightarrow> v_cn (ctx_cn s) ! i =
    (if pcs_cn s i \<in> {AtCount, AtComplete, RetCount, RetComplete} then Some (ts ! i) else None)"
  unfolding collectN_inv_def Let_def by blast

lemma inv_stored: "collectN_inv n ts sched s \<Longrightarrow>
    stored_cn (ctx_cn s) = card {i \<in> winners n sched. pcs_cn s i \<in> stored_pcs}"
  unfolding collectN_inv_def Let_def by blast

lemma inv_rejected: "collectN_inv n ts sched s \<Longrightarrow> rejected (p_cn (ctx_cn s)) = 0"
  unfolding collectN_inv_def Let_def by blast

lemma inv_emit_full: "collectN_inv n ts sched s \<Longrightarrow> i < length ts \<Longrightarrow>
    pcs_cn s i \<in> {AtComplete, RetComplete} \<Longrightarrow> stored_cn (ctx_cn s) = n"
  unfolding collectN_inv_def Let_def by blast

lemma inv_emit_unique: "collectN_inv n ts sched s \<Longrightarrow> i < length ts \<Longrightarrow> j < length ts \<Longrightarrow>
    pcs_cn s i \<in> {AtComplete, RetComplete} \<Longrightarrow> pcs_cn s j \<in> {AtComplete, RetComplete} \<Longrightarrow> i = j"
  unfolding collectN_inv_def Let_def by blast

lemma inv_full_emit: "collectN_inv n ts sched s \<Longrightarrow> stored_cn (ctx_cn s) = n \<Longrightarrow>
    \<exists>i<length ts. pcs_cn s i \<in> {AtComplete, RetComplete}"
  unfolding collectN_inv_def Let_def by blast

lemma inv_result: "collectN_inv n ts sched s \<Longrightarrow> core_result (p_cn (ctx_cn s)) =
    (if \<exists>i<length ts. pcs_cn s i = RetComplete then Some (Value (result_of n ts sched)) else None)"
  unfolding collectN_inv_def Let_def by blast

lemma ex_ret_upd:
  "pcs i \<noteq> RetComplete \<Longrightarrow> x \<noteq> RetComplete \<Longrightarrow>
   (\<exists>j<m. (pcs(i := x)) j = RetComplete) = (\<exists>j<m. pcs j = RetComplete)"
  by (metis fun_upd_apply)

lemma inv_step_ret:
  assumes inv: "collectN_inv n ts sched s" and i: "i < length ts"
    and pc: "pcs_cn s i \<in> {RetGate, RetCount, RetComplete}"
  shows "collectN_inv n ts (sched @ [i]) (stepN n ts i s)"
proof -
  have mem: "i \<in> set sched" using inv_gate[OF inv i] pc by auto
  have st: "stepN n ts i s = s" using pc i by (auto simp: stepN_def callbackN_def)
  have g: "gate_order (sched @ [i]) = gate_order sched" using mem by (simp add: gate_order_snoc)
  have w: "winners n (sched @ [i]) = winners n sched" using mem by (simp add: winners_snoc)
  have r: "result_of n ts (sched @ [i]) = result_of n ts sched" by (simp add: result_of_def g)
  have ss: "set (sched @ [i]) = set sched" using mem by auto
  have "collectN_inv n ts (sched @ [i]) s"
    using inv unfolding collectN_inv_def g w r ss .
  then show ?thesis by (simp add: st)
qed

lemma inv_step_store:
  assumes inv: "collectN_inv n ts sched s" and i: "i < length ts"
    and pc: "pcs_cn s i = AtStore"
  shows "collectN_inv n ts (sched @ [i]) (stepN n ts i s)"
proof -
  have mem: "i \<in> set sched" using inv_gate[OF inv i] pc by auto
  have st: "stepN n ts i s =
     s\<lparr>ctx_cn := setPartialResult i (ts ! i) (ctx_cn s), pcs_cn := (pcs_cn s)(i := AtCount)\<rparr>"
    using pc i by (auto simp: stepN_def callbackN_def)
  have g: "gate_order (sched @ [i]) = gate_order sched" using mem by (simp add: gate_order_snoc)
  have w: "winners n (sched @ [i]) = winners n sched" using mem by (simp add: winners_snoc)
  have r: "result_of n ts (sched @ [i]) = result_of n ts sched" by (simp add: result_of_def g)
  have c: "{j \<in> winners n sched. ((pcs_cn s)(i := AtCount)) j \<in> stored_pcs} =
           {j \<in> winners n sched. pcs_cn s j \<in> stored_pcs}"
    using pc by (intro card_stored_same) (simp_all add: stored_pcs_def)
  show ?thesis unfolding st
    apply (rule collectN_invI)
    subgoal using inv_len[OF inv] by (simp add: setPartialResult_def)
    subgoal for j using inv_gate[OF inv, of j] mem by (cases "j = i") auto
    subgoal using inv_completed[OF inv] by (simp add: g setPartialResult_def)
    subgoal for j using inv_retgate[OF inv, of j] pc by (cases "j = i") (auto simp: g)
    subgoal for j using inv_v[OF inv, of j] inv_len[OF inv] i
      by (cases "j = i") (auto simp: setPartialResult_def)
    subgoal using inv_stored[OF inv] unfolding w by (simp add: c setPartialResult_def del: fun_upd_apply)
    subgoal using inv_rejected[OF inv] by (simp add: setPartialResult_def)
    subgoal for j using inv_emit_full[OF inv, of j] pc
      by (cases "j = i") (auto simp: setPartialResult_def)
    subgoal for j k using inv_emit_unique[OF inv, of j k] pc
      by (cases "j = i"; cases "k = i") auto
    subgoal premises prems
    proof -
      from prems obtain j where j: "j < length ts" "pcs_cn s j \<in> {AtComplete, RetComplete}"
        using inv_full_emit[OF inv] by (auto simp: setPartialResult_def)
      then have "j \<noteq> i" using pc by auto
      with j show ?thesis by (intro exI[of _ j]) simp
    qed
    subgoal using inv_result[OF inv] pc
      by (simp add: r setPartialResult_def ex_ret_upd del: fun_upd_apply)
    done
qed

lemma inv_step_gate_late:
  assumes inv: "collectN_inv n ts sched s" and i: "i < length ts"
    and pc: "pcs_cn s i = AtGate" and late: "n \<le> length (gate_order sched)"
  shows "collectN_inv n ts (sched @ [i]) (stepN n ts i s)"
proof -
  have mem: "i \<notin> set sched" using inv_gate[OF inv i] pc by auto
  have comp: "completed_cn (ctx_cn s) = length (gate_order sched)" by (rule inv_completed[OF inv])
  have st: "stepN n ts i s =
     s\<lparr>ctx_cn := (ctx_cn s)\<lparr>completed_cn := completed_cn (ctx_cn s) + 1\<rparr>,
       pcs_cn := (pcs_cn s)(i := RetGate)\<rparr>"
    using pc i late comp by (auto simp: stepN_def callbackN_def Let_def)
  have g: "gate_order (sched @ [i]) = gate_order sched @ [i]" using mem by (simp add: gate_order_snoc)
  have w: "winners n (sched @ [i]) = winners n sched" using mem late by (simp add: winners_snoc)
  have r: "result_of n ts (sched @ [i]) = result_of n ts sched"
    using late by (simp add: result_of_def g)
  have c: "{j \<in> winners n sched. ((pcs_cn s)(i := RetGate)) j \<in> stored_pcs} =
           {j \<in> winners n sched. pcs_cn s j \<in> stored_pcs}"
    using pc by (intro card_stored_same) (simp_all add: stored_pcs_def)
  show ?thesis unfolding st
    apply (rule collectN_invI)
    subgoal using inv_len[OF inv] by simp
    subgoal for j using inv_gate[OF inv, of j] by (cases "j = i") auto
    subgoal using comp by (simp add: g)
    subgoal for j using inv_retgate[OF inv, of j] late by (cases "j = i") (auto simp: g)
    subgoal for j using inv_v[OF inv, of j] pc by (cases "j = i") auto
    subgoal using inv_stored[OF inv] unfolding w by (simp add: c del: fun_upd_apply insert_iff)
    subgoal using inv_rejected[OF inv] by simp
    subgoal for j using inv_emit_full[OF inv, of j] pc by (cases "j = i") auto
    subgoal for j k using inv_emit_unique[OF inv, of j k] pc
      by (cases "j = i"; cases "k = i") auto
    subgoal premises prems
    proof -
      from prems obtain j where j: "j < length ts" "pcs_cn s j \<in> {AtComplete, RetComplete}"
        using inv_full_emit[OF inv] by auto
      then have "j \<noteq> i" using pc by auto
      with j show ?thesis by (intro exI[of _ j]) simp
    qed
    subgoal using inv_result[OF inv] pc by (simp add: r ex_ret_upd del: fun_upd_apply)
    done
qed

lemma inv_step_gate_early:
  assumes inv: "collectN_inv n ts sched s" and i: "i < length ts"
    and pc: "pcs_cn s i = AtGate" and early: "length (gate_order sched) < n"
  shows "collectN_inv n ts (sched @ [i]) (stepN n ts i s)"
proof -
  have mem: "i \<notin> set sched" using inv_gate[OF inv i] pc by auto
  have comp: "completed_cn (ctx_cn s) = length (gate_order sched)" by (rule inv_completed[OF inv])
  have st: "stepN n ts i s =
     s\<lparr>ctx_cn := (ctx_cn s)\<lparr>completed_cn := completed_cn (ctx_cn s) + 1\<rparr>,
       pcs_cn := (pcs_cn s)(i := AtStore)\<rparr>"
    using pc i early comp by (auto simp: stepN_def callbackN_def Let_def)
  have g: "gate_order (sched @ [i]) = gate_order sched @ [i]" using mem by (simp add: gate_order_snoc)
  have w: "winners n (sched @ [i]) = insert i (winners n sched)" using mem early by (simp add: winners_snoc)
  have c: "{j \<in> insert i (winners n sched). ((pcs_cn s)(i := AtStore)) j \<in> stored_pcs} =
           {j \<in> winners n sched. pcs_cn s j \<in> stored_pcs}"
    using pc by (intro card_stored_same) (simp_all add: stored_pcs_def)
  have notfull: "stored_cn (ctx_cn s) \<noteq> n"
    using card_stored_full(1)[of n sched "\<lambda>j. pcs_cn s j \<in> stored_pcs"] inv_stored[OF inv] early
    by auto
  have noemit: "\<And>j. j < length ts \<Longrightarrow> pcs_cn s j \<noteq> AtComplete \<and> pcs_cn s j \<noteq> RetComplete"
    using inv_emit_full[OF inv] notfull by auto
  show ?thesis unfolding st
    apply (rule collectN_invI)
    subgoal using inv_len[OF inv] by simp
    subgoal for j using inv_gate[OF inv, of j] by (cases "j = i") auto
    subgoal using comp by (simp add: g)
    subgoal for j using inv_retgate[OF inv, of j] early by (cases "j = i") (auto simp: g)
    subgoal for j using inv_v[OF inv, of j] pc by (cases "j = i") auto
    subgoal using inv_stored[OF inv] unfolding w by (simp add: c del: fun_upd_apply insert_iff)
    subgoal using inv_rejected[OF inv] by simp
    subgoal for j using noemit[of j] by (cases "j = i") auto
    subgoal for j k using noemit[of j] by (cases "j = i") auto
    subgoal using notfull by simp
    subgoal using inv_result[OF inv] noemit by auto
    done
qed

lemma not_gate_winner:
  assumes inv: "collectN_inv n ts sched s" and i: "i < length ts"
    and pc: "pcs_cn s i \<noteq> AtGate" "pcs_cn s i \<noteq> RetGate"
  shows "i \<in> winners n sched"
  using inv_gate[OF inv i] inv_retgate[OF inv i] pc by (simp add: in_winners_iff)

lemma inv_step_count:
  assumes inv: "collectN_inv n ts sched s" and i: "i < length ts"
    and pc: "pcs_cn s i = AtCount"
  shows "collectN_inv n ts (sched @ [i]) (stepN n ts i s)"
proof -
  have mem: "i \<in> set sched" using inv_gate[OF inv i] pc by auto
  have win: "i \<in> winners n sched" using not_gate_winner[OF inv i] pc by simp
  define x where "x = (if 1 + stored_cn (ctx_cn s) < n then RetCount else AtComplete)"
  have xs: "x \<in> stored_pcs" "x \<noteq> AtGate" "x \<noteq> RetGate" "x \<noteq> RetComplete"
    "x \<in> {AtCount, AtComplete, RetCount, RetComplete}"
    by (simp_all add: x_def stored_pcs_def)
  have st: "stepN n ts i s =
     s\<lparr>ctx_cn := (ctx_cn s)\<lparr>stored_cn := stored_cn (ctx_cn s) + 1\<rparr>,
       pcs_cn := (pcs_cn s)(i := x)\<rparr>"
    using pc i by (auto simp: stepN_def callbackN_def Let_def x_def)
  have g: "gate_order (sched @ [i]) = gate_order sched" using mem by (simp add: gate_order_snoc)
  have w: "winners n (sched @ [i]) = winners n sched" using mem by (simp add: winners_snoc)
  have r: "result_of n ts (sched @ [i]) = result_of n ts sched" by (simp add: result_of_def g)
  have c: "card {j \<in> winners n sched. ((pcs_cn s)(i := x)) j \<in> stored_pcs} =
           Suc (card {j \<in> winners n sched. pcs_cn s j \<in> stored_pcs})"
    using win pc xs(1) by (intro card_stored_move) (simp_all add: stored_pcs_def)
  have le: "Suc (stored_cn (ctx_cn s)) \<le> n"
    using card_stored_le[of n sched "\<lambda>j. ((pcs_cn s)(i := x)) j \<in> stored_pcs"] c inv_stored[OF inv]
    by simp
  then have notfull: "stored_cn (ctx_cn s) \<noteq> n" by simp
  have noemit: "\<And>j. j < length ts \<Longrightarrow> pcs_cn s j \<noteq> AtComplete \<and> pcs_cn s j \<noteq> RetComplete"
    using inv_emit_full[OF inv] notfull by auto
  have xfull: "x = AtComplete \<longleftrightarrow> Suc (stored_cn (ctx_cn s)) = n"
    using le by (auto simp: x_def)
  show ?thesis unfolding st
    apply (rule collectN_invI)
    subgoal using inv_len[OF inv] by simp
    subgoal for j using inv_gate[OF inv, of j] mem xs by (cases "j = i") auto
    subgoal using inv_completed[OF inv] by (simp add: g)
    subgoal for j using inv_retgate[OF inv, of j] pc xs by (cases "j = i") (auto simp: g)
    subgoal for j using inv_v[OF inv, of j] pc xs by (cases "j = i") auto
    subgoal using inv_stored[OF inv] unfolding w by (simp add: c del: fun_upd_apply)
    subgoal using inv_rejected[OF inv] by simp
    subgoal for j using noemit[of j] xfull xs by (cases "j = i") auto
    subgoal for j k using noemit[of j] noemit[of k] by (cases "j = i"; cases "k = i") auto
    subgoal using xfull i by (intro exI[of _ i]) simp
    subgoal using inv_result[OF inv] noemit xs by auto
    done
qed

lemma card_stored_keep:
  assumes "pcs i \<in> stored_pcs" "x \<in> stored_pcs"
  shows "{j \<in> W. (pcs(i := x)) j \<in> stored_pcs} = {j \<in> W. pcs j \<in> stored_pcs}"
  using assms by auto

lemma inv_step_complete:
  assumes inv: "collectN_inv n ts sched s" and i: "i < length ts"
    and pc: "pcs_cn s i = AtComplete"
  shows "collectN_inv n ts (sched @ [i]) (stepN n ts i s)"
proof -
  have mem: "i \<in> set sched" using inv_gate[OF inv i] pc by auto
  have st: "stepN n ts i s =
     s\<lparr>ctx_cn := complete (ctx_cn s), pcs_cn := (pcs_cn s)(i := RetComplete)\<rparr>"
    using pc i by (auto simp: stepN_def callbackN_def Let_def)
  have g: "gate_order (sched @ [i]) = gate_order sched" using mem by (simp add: gate_order_snoc)
  have w: "winners n (sched @ [i]) = winners n sched" using mem by (simp add: winners_snoc)
  have r: "result_of n ts (sched @ [i]) = result_of n ts sched" by (simp add: result_of_def g)
  have c: "{j \<in> winners n sched. ((pcs_cn s)(i := RetComplete)) j \<in> stored_pcs} =
           {j \<in> winners n sched. pcs_cn s j \<in> stored_pcs}"
    using pc by (intro card_stored_keep) (simp_all add: stored_pcs_def)
  have full: "stored_cn (ctx_cn s) = n" using inv_emit_full[OF inv i] pc by simp
  have only: "\<And>j. j < length ts \<Longrightarrow> pcs_cn s j \<in> {AtComplete, RetComplete} \<Longrightarrow> j = i"
    using inv_emit_unique[OF inv _ i] pc by simp
  have noret: "\<not> (\<exists>j<length ts. pcs_cn s j = RetComplete)"
  proof
    assume "\<exists>j<length ts. pcs_cn s j = RetComplete"
    then obtain j where j: "j < length ts" "pcs_cn s j = RetComplete" by blast
    then have "j = i" using only[of j] by simp
    then show False using j pc by simp
  qed
  have unset: "core_result (p_cn (ctx_cn s)) = None" using inv_result[OF inv] noret by simp
  have allw: "\<forall>j \<in> winners n sched. pcs_cn s j \<in> stored_pcs"
    using card_stored_full(2)[of n sched "\<lambda>j. pcs_cn s j \<in> stored_pcs"] inv_stored[OF inv] full
    by simp
  have slot: "\<And>j. j < length ts \<Longrightarrow>
      v_cn (ctx_cn s) ! j = (if j \<in> winners n sched then Some (ts ! j) else None)"
  proof -
    fix j assume j: "j < length ts"
    show "v_cn (ctx_cn s) ! j = (if j \<in> winners n sched then Some (ts ! j) else None)"
    proof (cases "j \<in> winners n sched")
      case True
      then have "pcs_cn s j \<in> stored_pcs" using allw by simp
      then show ?thesis using inv_v[OF inv j] True by (auto simp: stored_pcs_def)
    next
      case False
      then have "pcs_cn s j = AtGate \<or> pcs_cn s j = RetGate"
        using not_gate_winner[OF inv j] by blast
      then show ?thesis using inv_v[OF inv j] False by auto
    qed
  qed
  have v: "v_cn (ctx_cn s) =
      map (\<lambda>j. if j \<in> winners n sched then Some (ts ! j) else None) [0..<length ts]"
    using inv_len[OF inv] slot by (intro nth_equalityI) simp_all
  have loop: "complete_loop (v_cn (ctx_cn s)) 0 = result_of n ts sched"
  proof -
    let ?f = "\<lambda>j. if j \<in> winners n sched then Some (ts ! j) else None"
    have f1: "filter (\<lambda>j. ?f j \<noteq> None) [0..<length ts] =
              filter (\<lambda>j. j \<in> winners n sched) [0..<length ts]"
      by (rule filter_cong) auto
    have f2: "map (\<lambda>j. (j, the (?f j))) (filter (\<lambda>j. j \<in> winners n sched) [0..<length ts]) =
              map (\<lambda>j. (j, ts ! j)) (filter (\<lambda>j. j \<in> winners n sched) [0..<length ts])"
      by (rule map_cong) auto
    have "complete_loop (v_cn (ctx_cn s)) 0 =
          map (\<lambda>j. (j, the (?f j))) (filter (\<lambda>j. ?f j \<noteq> None) [0..<length ts])"
      unfolding v by (rule complete_loop_upt)
    also have "\<dots> = map (\<lambda>j. (j, ts ! j)) (filter (\<lambda>j. j \<in> winners n sched) [0..<length ts])"
      unfolding f1 by (rule f2)
    finally show ?thesis by (simp add: result_of_def winners_def)
  qed
  have ex: "\<exists>j<length ts. ((pcs_cn s)(i := RetComplete)) j = RetComplete"
    using i by (intro exI[of _ i]) simp
  show ?thesis unfolding st
    apply (rule collectN_invI)
    subgoal using inv_len[OF inv] by (simp add: complete_def)
    subgoal for j using inv_gate[OF inv, of j] mem by (cases "j = i") auto
    subgoal using inv_completed[OF inv] by (simp add: g complete_def)
    subgoal for j using inv_retgate[OF inv, of j] pc by (cases "j = i") (auto simp: g)
    subgoal for j using inv_v[OF inv, of j] pc by (cases "j = i") (auto simp: complete_def)
    subgoal using inv_stored[OF inv] unfolding w by (simp add: c complete_def del: fun_upd_apply)
    subgoal using inv_rejected[OF inv] unset by (simp add: complete_def)
    subgoal using full by (simp add: complete_def)
    subgoal premises prems for j k
    proof -
      have "pcs_cn s j \<in> {AtComplete, RetComplete} \<or> j = i" using prems(3) by (cases "j = i") simp_all
      then have j: "j = i" using only[OF prems(1)] by blast
      have "pcs_cn s k \<in> {AtComplete, RetComplete} \<or> k = i" using prems(4) by (cases "k = i") simp_all
      then have "k = i" using only[OF prems(2)] by blast
      with j show ?thesis by simp
    qed
    subgoal using i by (intro exI[of _ i]) simp
    subgoal using unset ex by (simp add: complete_def loop r del: fun_upd_apply)
    done
qed

lemma inv_step:
  assumes inv: "collectN_inv n ts sched s" and i: "i < length ts"
  shows "collectN_inv n ts (sched @ [i]) (stepN n ts i s)"
proof (cases "pcs_cn s i")
  case AtGate
  show ?thesis
  proof (cases "n \<le> length (gate_order sched)")
    case True
    then show ?thesis using inv_step_gate_late[OF inv i AtGate] by simp
  next
    case False
    then show ?thesis using inv_step_gate_early[OF inv i AtGate] by simp
  qed
next
  case AtStore
  then show ?thesis by (rule inv_step_store[OF inv i])
next
  case AtCount
  then show ?thesis by (rule inv_step_count[OF inv i])
next
  case AtComplete
  then show ?thesis by (rule inv_step_complete[OF inv i])
next
  case RetGate
  then show ?thesis using inv_step_ret[OF inv i] by simp
next
  case RetCount
  then show ?thesis using inv_step_ret[OF inv i] by simp
next
  case RetComplete
  then show ?thesis using inv_step_ret[OF inv i] by simp
qed

lemma inv_run:
  assumes "0 < n" "n \<le> length ts" "set sched \<subseteq> {..<length ts}"
  shows "collectN_inv n ts sched (run_collectN n ts sched)"
  using assms(3)
proof (induction sched rule: rev_induct)
  case Nil
  show ?case using assms(1,2) by (rule inv_init)
next
  case (snoc i sched)
  then have "collectN_inv n ts sched (run_collectN n ts sched)" and "i < length ts" by auto
  then show ?case using assms(2) by (simp add: run_collectN_snoc inv_step)
qed

lemma stepN_other: "i \<noteq> j \<Longrightarrow> pcs_cn (stepN n ts j s) i = pcs_cn s i"
  by (simp add: stepN_def callbackN_def Let_def split: pc.splits)

lemma stepN_rank:
  "i < length ts \<Longrightarrow> min 4 (Suc (rank (pcs_cn s i))) \<le> rank (pcs_cn (stepN n ts i s) i)"
  by (cases "pcs_cn s i") (simp_all add: stepN_def callbackN_def Let_def)

lemma run_progress:
  assumes "n \<le> length ts" "i < length ts"
  shows "min 4 (count_list sched i) \<le> rank (pcs_cn (run_collectN n ts sched) i)"
proof (induction sched rule: rev_induct)
  case Nil
  then show ?case by simp
next
  case (snoc j sched)
  show ?case
  proof (cases "j = i")
    case True
    then show ?thesis using snoc stepN_rank[OF assms(2), of "run_collectN n ts sched" n] assms(1)
      by (simp add: run_collectN_snoc)
  next
    case False
    then show ?thesis using snoc assms(1) by (simp add: run_collectN_snoc stepN_other)
  qed
qed

lemma run_returned:
  assumes "n \<le> length ts" "i < length ts" "4 \<le> count_list sched i"
  shows "pcs_cn (run_collectN n ts sched) i \<in> {RetGate, RetCount, RetComplete}"
proof -
  have "4 \<le> rank (pcs_cn (run_collectN n ts sched) i)"
    using run_progress[OF assms(1,2), of sched] assms(3) by simp
  then show ?thesis by (cases "pcs_cn (run_collectN n ts sched) i") simp_all
qed

lemma result_of_props:
  assumes "set (take n (gate_order sched)) \<subseteq> {..<length ts}" "length (take n (gate_order sched)) = n"
  shows "length (result_of n ts sched) = n"
    and "distinct (map fst (result_of n ts sched))"
    and "set (map fst (result_of n ts sched)) = set (take n (gate_order sched))"
    and "\<forall>(i, t) \<in> set (result_of n ts sched). i < length ts \<and> t = ts ! i"
proof -
  have fst: "map fst (result_of n ts sched) =
      filter (\<lambda>i. i \<in> set (take n (gate_order sched))) [0..<length ts]"
    by (simp add: result_of_def comp_def)
  have "{x. x \<in> set (take n (gate_order sched))} \<inter> set [0..<length ts] = set (take n (gate_order sched))"
    using assms(1) by auto
  then have "length (filter (\<lambda>i. i \<in> set (take n (gate_order sched))) [0..<length ts]) =
      card (set (take n (gate_order sched)))"
    by (simp add: distinct_length_filter)
  also have "\<dots> = n" using assms(2) by (simp add: distinct_card)
  finally show "length (result_of n ts sched) = n" by (simp add: result_of_def)
  show "distinct (map fst (result_of n ts sched))" unfolding fst by simp
  show "set (map fst (result_of n ts sched)) = set (take n (gate_order sched))"
    unfolding fst using assms(1) by auto
  show "\<forall>(i, t) \<in> set (result_of n ts sched). i < length ts \<and> t = ts ! i"
    by (auto simp: result_of_def)
qed

lemma collectN_progress:
  assumes n: "0 < n" "n \<le> length ts" and valid: "set sched \<subseteq> {..<length ts}"
    and started: "length (take n (gate_order sched)) = n"
    and ended: "\<forall>i \<in> set (take n (gate_order sched)). 4 \<le> count_list sched i"
  shows "\<exists>i<length ts. pcs_cn (run_collectN n ts sched) i = RetComplete"
    and "stored_cn (ctx_cn (run_collectN n ts sched)) = n"
    and "v_cn (ctx_cn (run_collectN n ts sched)) =
           map (\<lambda>j. if j \<in> set (take n (gate_order sched)) then Some (ts ! j) else None) [0..<length ts]"
proof -
  let ?s = "run_collectN n ts sched"
  have inv: "collectN_inv n ts sched ?s" using n valid by (rule inv_run)
  have len: "n \<le> length (gate_order sched)" using started by simp
  have wsub: "winners n sched \<subseteq> {..<length ts}" using winners_subset[of n sched] valid by simp
  have wst: "\<And>j. j \<in> winners n sched \<Longrightarrow> pcs_cn ?s j \<in> {RetCount, RetComplete}"
  proof -
    fix j assume j: "j \<in> winners n sched"
    then have jl: "j < length ts" using wsub by auto
    have "4 \<le> count_list sched j" using ended j by (simp add: winners_def)
    then have ret: "pcs_cn ?s j \<in> {RetGate, RetCount, RetComplete}"
      using run_returned[OF n(2) jl] by simp
    have "pcs_cn ?s j \<noteq> RetGate" using inv_retgate[OF inv jl] j by (simp add: in_winners_iff)
    then show "pcs_cn ?s j \<in> {RetCount, RetComplete}" using ret by auto
  qed
  have "{j \<in> winners n sched. pcs_cn ?s j \<in> stored_pcs} = winners n sched"
    using wst by (auto simp: stored_pcs_def)
  then have "stored_cn (ctx_cn ?s) = card (winners n sched)" using inv_stored[OF inv] by simp
  then show full: "stored_cn (ctx_cn ?s) = n" using len by (simp add: winners_card)
  then obtain e where e: "e < length ts" "pcs_cn ?s e \<in> {AtComplete, RetComplete}"
    using inv_full_emit[OF inv] by blast
  have "e \<in> winners n sched" using inv e(1) by (rule not_gate_winner) (use e(2) in auto)
  then have "pcs_cn ?s e = RetComplete" using wst[of e] e(2) by auto
  then show "\<exists>i<length ts. pcs_cn ?s i = RetComplete" using e(1) by blast
  have slot: "\<And>j. j < length ts \<Longrightarrow>
      v_cn (ctx_cn ?s) ! j = (if j \<in> winners n sched then Some (ts ! j) else None)"
  proof -
    fix j assume j: "j < length ts"
    show "v_cn (ctx_cn ?s) ! j = (if j \<in> winners n sched then Some (ts ! j) else None)"
    proof (cases "j \<in> winners n sched")
      case True
      then show ?thesis using inv_v[OF inv j] wst[OF True] by auto
    next
      case False
      then have "pcs_cn ?s j = AtGate \<or> pcs_cn ?s j = RetGate"
        using not_gate_winner[OF inv j] by blast
      then show ?thesis using inv_v[OF inv j] False by auto
    qed
  qed
  show "v_cn (ctx_cn ?s) =
      map (\<lambda>j. if j \<in> set (take n (gate_order sched)) then Some (ts ! j) else None) [0..<length ts]"
    using inv_len[OF inv] slot unfolding winners_def by (intro nth_equalityI) simp_all
qed

lemma collectN_safety:
  assumes n: "0 < n" "n \<le> length ts" and valid: "set sched \<subseteq> {..<length ts}"
  shows "stored_cn (ctx_cn (run_collectN n ts sched)) \<le> n"
    and "rejected (p_cn (ctx_cn (run_collectN n ts sched))) = 0"
    and "(stored_cn (ctx_cn (run_collectN n ts sched)) = n) =
         (\<exists>i<length ts. pcs_cn (run_collectN n ts sched) i \<in> {AtComplete, RetComplete})"
    and "core_result (p_cn (ctx_cn (run_collectN n ts sched))) =
         (if \<exists>i<length ts. pcs_cn (run_collectN n ts sched) i = RetComplete
          then Some (Value (result_of n ts sched)) else None)"
    and "completed_cn (ctx_cn (run_collectN n ts sched)) = length (gate_order sched)"
    and "\<forall>i<length ts. \<forall>j<length ts.
           pcs_cn (run_collectN n ts sched) i \<in> {AtComplete, RetComplete} \<and>
           pcs_cn (run_collectN n ts sched) j \<in> {AtComplete, RetComplete} \<longrightarrow> i = j"
    and "\<forall>i<length ts. pcs_cn (run_collectN n ts sched) i \<in> {AtComplete, RetComplete} \<longrightarrow>
           i \<in> set (take n (gate_order sched))"
    and "(\<exists>i<length ts. pcs_cn (run_collectN n ts sched) i = RetComplete) \<longrightarrow>
           length (take n (gate_order sched)) = n"
    and "\<forall>j<length ts. v_cn (ctx_cn (run_collectN n ts sched)) ! j = None \<or>
           j \<in> set (take n (gate_order sched)) \<and>
           v_cn (ctx_cn (run_collectN n ts sched)) ! j = Some (ts ! j)"
proof -
  let ?s = "run_collectN n ts sched"
  have inv: "collectN_inv n ts sched ?s" using n valid by (rule inv_run)
  show "stored_cn (ctx_cn ?s) \<le> n" using inv_stored[OF inv] card_stored_le by simp
  show "rejected (p_cn (ctx_cn ?s)) = 0" by (rule inv_rejected[OF inv])
  show "(stored_cn (ctx_cn ?s) = n) = (\<exists>i<length ts. pcs_cn ?s i \<in> {AtComplete, RetComplete})"
    using inv_full_emit[OF inv] inv_emit_full[OF inv] by blast
  show "core_result (p_cn (ctx_cn ?s)) =
         (if \<exists>i<length ts. pcs_cn ?s i = RetComplete
          then Some (Value (result_of n ts sched)) else None)"
    by (rule inv_result[OF inv])
  show "completed_cn (ctx_cn ?s) = length (gate_order sched)" by (rule inv_completed[OF inv])
  show "\<forall>i<length ts. \<forall>j<length ts.
           pcs_cn ?s i \<in> {AtComplete, RetComplete} \<and>
           pcs_cn ?s j \<in> {AtComplete, RetComplete} \<longrightarrow> i = j"
    using inv_emit_unique[OF inv] by blast
  show w: "\<forall>i<length ts. pcs_cn ?s i \<in> {AtComplete, RetComplete} \<longrightarrow>
           i \<in> set (take n (gate_order sched))"
  proof (intro allI impI)
    fix i assume i: "i < length ts" and pc: "pcs_cn ?s i \<in> {AtComplete, RetComplete}"
    have "i \<in> winners n sched" using inv i by (rule not_gate_winner) (use pc in auto)
    then show "i \<in> set (take n (gate_order sched))" by (simp add: winners_def)
  qed
  show "(\<exists>i<length ts. pcs_cn ?s i = RetComplete) \<longrightarrow> length (take n (gate_order sched)) = n"
  proof
    assume "\<exists>i<length ts. pcs_cn ?s i = RetComplete"
    then obtain i where i: "i < length ts" "pcs_cn ?s i = RetComplete" by blast
    then have "stored_cn (ctx_cn ?s) = n" using inv_emit_full[OF inv, of i] by simp
    then have "card {j \<in> winners n sched. pcs_cn ?s j \<in> stored_pcs} = n"
      using inv_stored[OF inv] by simp
    then have "n \<le> length (gate_order sched)" by (rule card_stored_full(1))
    then show "length (take n (gate_order sched)) = n" by simp
  qed
  show "\<forall>j<length ts. v_cn (ctx_cn ?s) ! j = None \<or>
           j \<in> set (take n (gate_order sched)) \<and> v_cn (ctx_cn ?s) ! j = Some (ts ! j)"
  proof (intro allI impI)
    fix j assume j: "j < length ts"
    show "v_cn (ctx_cn ?s) ! j = None \<or>
           j \<in> set (take n (gate_order sched)) \<and> v_cn (ctx_cn ?s) ! j = Some (ts ! j)"
    proof (cases "pcs_cn ?s j \<in> {AtCount, AtComplete, RetCount, RetComplete}")
      case True
      then have "j \<in> winners n sched" using not_gate_winner[OF inv j] by auto
      then show ?thesis using inv_v[OF inv j] True by (simp add: winners_def)
    next
      case False
      then show ?thesis using inv_v[OF inv j] by simp
    qed
  qed
qed

text \<open>
  C4. Take \<open>0 < n \<le>\<close> the number of input futures and any interleaving \<open>sched\<close>
  of the atomic steps of the callbacks of \<^verbatim>\<open>collectN\<close>, whether or not every input
  completes in it. After \<open>sched\<close> the promise is unset as long as no callback has
  returned from \<^verbatim>\<open>complete()\<close>, and from then on it holds the vector of the pairs
  \<open>(i, ts ! i)\<close> of the first \<open>n\<close> callbacks at the gate \<open>completed < n\<close>; it is
  never set a second time. When it is set, \<open>n\<close> callbacks have passed the gate, and the
  vector has exactly \<open>n\<close> pairs, whose indices are pairwise distinct and below the
  number of futures and whose \<open>Try\<close> is the result of the input future at the index. It
  is set once the first \<open>n\<close> callbacks at the gate have run to their end, whatever the
  other inputs do, and then exactly their slots are filled. At every point only callbacks
  among the first \<open>n\<close> at the gate have stored their result, \<open>stored\<close> is at most
  \<open>n\<close>, and it is \<open>n\<close> exactly when some callback has entered \<^verbatim>\<open>complete()\<close>: the
  one whose \<^verbatim>\<open>fetch_add\<close> took \<open>stored\<close> from \<open>n - 1\<close> to \<open>n\<close>; at most one
  callback ever does, and it is one of the first \<open>n\<close>.
\<close>

theorem collectN_first_n:
  assumes "0 < n" and "n \<le> length ts" and "set sched \<subseteq> {..<length ts}"
  shows "(let s = run_collectN n ts sched; c = ctx_cn s;
              first_n = take n (gate_order sched);
              res = map (\<lambda>i. (i, ts ! i)) (filter (\<lambda>i. i \<in> set first_n) [0..<length ts]);
              emitted = (\<exists>i<length ts. pcs_cn s i = RetComplete)
          in core_result (p_cn c) = (if emitted then Some (Value res) else None) \<and>
             rejected (p_cn c) = 0 \<and>
             (emitted \<longrightarrow> length first_n = n) \<and>
             (length first_n = n \<longrightarrow>
                length res = n \<and> distinct (map fst res) \<and>
                (\<forall>(i, t) \<in> set res. i < length ts \<and> t = ts ! i) \<and>
                set (map fst res) = set first_n) \<and>
             (length first_n = n \<and> (\<forall>i \<in> set first_n. 4 \<le> count_list sched i) \<longrightarrow>
                emitted \<and> stored_cn c = n \<and>
                v_cn c = map (\<lambda>j. if j \<in> set first_n then Some (ts ! j) else None) [0..<length ts]) \<and>
             (\<forall>j<length ts. v_cn c ! j = None \<or> j \<in> set first_n \<and> v_cn c ! j = Some (ts ! j)) \<and>
             completed_cn c = length (gate_order sched) \<and>
             stored_cn c \<le> n \<and>
             (stored_cn c = n) = (\<exists>i<length ts. pcs_cn s i \<in> {AtComplete, RetComplete}) \<and>
             (\<forall>i<length ts. \<forall>j<length ts.
                pcs_cn s i \<in> {AtComplete, RetComplete} \<and> pcs_cn s j \<in> {AtComplete, RetComplete}
                \<longrightarrow> i = j) \<and>
             (\<forall>i<length ts. pcs_cn s i \<in> {AtComplete, RetComplete} \<longrightarrow> i \<in> set first_n))"
proof -
  have sub: "set (take n (gate_order sched)) \<subseteq> {..<length ts}"
    using assms(3) winners_subset[of n sched] by (simp add: winners_def)
  note sf = collectN_safety[OF assms]
  have props: "length (take n (gate_order sched)) = n \<longrightarrow>
      length (result_of n ts sched) = n \<and> distinct (map fst (result_of n ts sched)) \<and>
      (\<forall>(i, t) \<in> set (result_of n ts sched). i < length ts \<and> t = ts ! i) \<and>
      set (map fst (result_of n ts sched)) = set (take n (gate_order sched))"
    using result_of_props[OF sub] by blast
  have prog: "length (take n (gate_order sched)) = n \<and>
      (\<forall>i \<in> set (take n (gate_order sched)). 4 \<le> count_list sched i) \<longrightarrow>
      (\<exists>i<length ts. pcs_cn (run_collectN n ts sched) i = RetComplete) \<and>
      stored_cn (ctx_cn (run_collectN n ts sched)) = n \<and>
      v_cn (ctx_cn (run_collectN n ts sched)) =
        map (\<lambda>j. if j \<in> set (take n (gate_order sched)) then Some (ts ! j) else None) [0..<length ts]"
    using collectN_progress[OF assms] by blast
  show ?thesis
    unfolding Let_def
    apply (intro conjI)
              apply (rule sf(4)[unfolded result_of_def])
             apply (rule sf(2))
            apply (rule sf(8))
           apply (rule props[unfolded result_of_def])
          apply (rule prog)
         apply (rule sf(9))
        apply (rule sf(5))
       apply (rule sf(1))
      apply (rule sf(3))
     apply (rule sf(6))
    apply (rule sf(7))
    done
qed

theorem collectN_first_n_witness:
  "(0::nat) < 2 \<and>
   2 \<le> length [Value (10::nat), Exception (UserError 1), Value 30] \<and>
   set [0, 0, 0, 0, 1, 1, 1, 1] \<subseteq> {..<length [Value (10::nat), Exception (UserError 1), Value 30]} \<and>
   take 2 (gate_order [0, 0, 0, 0, 1, 1, 1, 1]) = [0, 1] \<and>
   core_result (p_cn (ctx_cn (run_collectN 2 [Value (10::nat), Exception (UserError 1), Value 30]
      [0, 0, 0, 0, 1, 1, 1, 1]))) =
     Some (Value [(0, Value 10), (1, Exception (UserError 1))]) \<and>
   rejected (p_cn (ctx_cn (run_collectN 2 [Value (10::nat), Exception (UserError 1), Value 30]
      [0, 0, 0, 0, 1, 1, 1, 1]))) = 0 \<and>
   core_result (p_cn (ctx_cn (run_collectN 2 [Value (10::nat), Exception (UserError 1), Value 30]
      [2, 0, 2, 0, 2, 0]))) = None"
proof -
  let ?ts = "[Value (10::nat), Exception (UserError 1), Value 30]"
  let ?sched = "[0, 0, 0, 0, 1, 1, 1, 1] :: nat list"
  let ?pre = "[2, 0, 2, 0, 2, 0] :: nat list"
  have h1: "(0::nat) < 2" by simp
  have h2: "2 \<le> length ?ts" by simp
  have h3: "set ?sched \<subseteq> {..<length ?ts}" by simp
  have h5: "set ?pre \<subseteq> {..<length ?ts}" by simp
  have g: "take 2 (gate_order ?sched) = [0, 1]" by (simp add: gate_order_def)
  have pre: "\<not> (\<exists>i<length ?ts. pcs_cn (run_collectN 2 ?ts ?pre) i = RetComplete)"
    by (simp add: run_collectN_def collectN_def callbackN_def Let_def makeCollectNContext_def
          makePromise_def setPartialResult_def numeral_3_eq_3 less_Suc_eq)
  note t = collectN_first_n[OF h1 h2 h3, unfolded Let_def g]
  have hyp: "length [0, 1 :: nat] = 2 \<and> (\<forall>i \<in> set [0, 1]. 4 \<le> count_list ?sched i)"
    by simp
  have em: "\<exists>i<length ?ts. pcs_cn (run_collectN 2 ?ts ?sched) i = RetComplete"
    using t[THEN conjunct2, THEN conjunct2, THEN conjunct2, THEN conjunct2, THEN conjunct1] hyp
    by blast
  have r: "core_result (p_cn (ctx_cn (run_collectN 2 ?ts ?sched))) =
      Some (Value [(0, Value 10), (1, Exception (UserError 1))])"
    using t[THEN conjunct1] em by (simp add: upt_rec)
  have z: "rejected (p_cn (ctx_cn (run_collectN 2 ?ts ?sched))) = 0"
    by (rule t[THEN conjunct2, THEN conjunct1])
  have q: "core_result (p_cn (ctx_cn (run_collectN 2 ?ts ?pre))) = None"
    using collectN_first_n[OF h1 h2 h5, unfolded Let_def, THEN conjunct1] pre by simp
  show ?thesis using h1 h2 h3 g r z q by simp
qed

subsection \<open>Runs of a shared context\<close>

lemma completions_append [simp]: "completions (xs @ ys) = completions xs @ completions ys"
  by (induction xs rule: completions.induct) simp_all

lemma completions_set: "set (completions evs) = {i. Complete i \<in> set evs}"
  by (induction evs rule: completions.induct) auto

lemma completions_distinct: "distinct evs \<Longrightarrow> distinct (completions evs)"
  by (induction evs rule: completions.induct) (auto simp: completions_set)

lemma schedule_length: "schedule n sched \<Longrightarrow> length sched = Suc n"
proof -
  assume s: "schedule n sched"
  have "inj_on Complete {..<n}" by (simp add: inj_on_def)
  then have "card (Complete ` {..<n}) = n" by (simp add: card_image)
  moreover have "Return \<notin> Complete ` {..<n}" by auto
  ultimately have "card (insert Return (Complete ` {..<n})) = Suc n" by simp
  then show ?thesis using s distinct_card[of sched] by (simp add: schedule_def)
qed

lemma schedule_completions:
  assumes "schedule n sched"
  shows "distinct (completions sched)" and "set (completions sched) = {..<n}"
  using assms by (auto simp: schedule_def completions_distinct completions_set)

lemma schedule_bound: "schedule n sched \<Longrightarrow> Complete i \<in> set sched \<Longrightarrow> i < n"
  by (auto simp: schedule_def)

lemma run_callbacks_snoc:
  "run_callbacks func ts (is @ [i]) ctx = run_callback func ts i (run_callbacks func ts is ctx)"
  by (simp add: run_callbacks_def)

lemma mapSetCallback_snoc:
  "mapSetCallback func dtor ts (pre @ [e]) ctx = deliver func dtor ts e (mapSetCallback func dtor ts pre ctx)"
  by (simp add: mapSetCallback_def)

lemma mapSetCallback_prefix:
  assumes "\<forall>i. Complete i \<in> set pre \<longrightarrow> i < length ts" "length pre \<le> length ts"
  shows "mapSetCallback func dtor ts pre ctx =
     \<lparr>ctx_of = fst (run_callbacks func ts (completions pre) ctx),
      use_count = Suc (length ts) - length pre,
      escaped = snd (run_callbacks func ts (completions pre) ctx)\<rparr>"
  using assms
proof (induction pre rule: rev_induct)
  case Nil
  then show ?case by (simp add: mapSetCallback_def run_callbacks_def)
next
  case (snoc e pre)
  then have ih: "mapSetCallback func dtor ts pre ctx =
     \<lparr>ctx_of = fst (run_callbacks func ts (completions pre) ctx),
      use_count = Suc (length ts) - length pre,
      escaped = snd (run_callbacks func ts (completions pre) ctx)\<rparr>" by simp
  have cnt: "Suc (length ts) - length pre \<noteq> 1" using snoc.prems(2) by simp
  show ?case
  proof (cases e)
    case Return
    then show ?thesis using cnt snoc.prems(2)
      by (simp add: mapSetCallback_snoc ih deliver_def release_def)
  next
    case (Complete i)
    then have "i < length ts" using snoc.prems(1) by simp
    then show ?thesis using cnt snoc.prems(2) Complete
      by (simp add: mapSetCallback_snoc ih deliver_def release_def run_callbacks_snoc
          run_callback_def split: prod.splits)
  qed
qed

lemma mapSetCallback_before:
  assumes "schedule (length ts) sched" "k < length sched"
  shows "mapSetCallback func dtor ts (take k sched) ctx =
     \<lparr>ctx_of = fst (run_callbacks func ts (completions (take k sched)) ctx),
      use_count = Suc (length ts) - k,
      escaped = snd (run_callbacks func ts (completions (take k sched)) ctx)\<rparr>"
proof -
  have len: "length sched = Suc (length ts)" using assms(1) by (rule schedule_length)
  have b: "\<forall>i. Complete i \<in> set (take k sched) \<longrightarrow> i < length ts"
    using schedule_bound[OF assms(1)] by (auto dest: in_set_takeD)
  have l: "length (take k sched) \<le> length ts" using assms(2) len by simp
  have "length (take k sched) = k" using assms(2) by simp
  then show ?thesis using mapSetCallback_prefix[OF b l, of func dtor ctx] by simp
qed

lemma mapSetCallback_all:
  assumes "schedule (length ts) sched"
  shows "mapSetCallback func dtor ts sched ctx =
     \<lparr>ctx_of = fst (dtor (fst (run_callbacks func ts (completions sched) ctx))),
      use_count = 0,
      escaped = snd (run_callbacks func ts (completions sched) ctx) @
                thrown (snd (dtor (fst (run_callbacks func ts (completions sched) ctx))))\<rparr>"
proof -
  have len: "length sched = Suc (length ts)" using assms by (rule schedule_length)
  then obtain pre e where sched: "sched = pre @ [e]"
    by (metis length_0_conv nat.simps(3) rev_exhaust)
  then have lp: "length pre = length ts" using len by simp
  have b: "\<forall>i. Complete i \<in> set pre \<longrightarrow> i < length ts"
    using schedule_bound[OF assms] sched by auto
  have pre: "mapSetCallback func dtor ts pre ctx =
     \<lparr>ctx_of = fst (run_callbacks func ts (completions pre) ctx),
      use_count = 1,
      escaped = snd (run_callbacks func ts (completions pre) ctx)\<rparr>"
    using mapSetCallback_prefix[OF b, of func dtor ctx] lp by simp
  show ?thesis
  proof (cases e)
    case Return
    then show ?thesis unfolding sched
      by (simp add: mapSetCallback_snoc pre deliver_def release_def split: prod.splits)
  next
    case (Complete i)
    then have "i < length ts" using schedule_bound[OF assms, of i] sched by simp
    then show ?thesis unfolding sched using Complete
      by (simp add: mapSetCallback_snoc pre deliver_def release_def run_callbacks_snoc
          run_callback_def split: prod.splits)
  qed
qed

subsection \<open>collectAll\<close>

lemma collectAll_callbacks:
  "run_callbacks collectAll_callback ts is ctx =
     (ctx\<lparr>results_ca := fold (\<lambda>i r. r[i := ts ! i]) is (results_ca ctx)\<rparr>, [])"
proof (induction "is" rule: rev_induct)
  case Nil
  then show ?case by (simp add: run_callbacks_def)
next
  case (snoc i "is")
  then show ?case
    by (simp add: run_callbacks_snoc run_callback_def collectAll_callback_def thrown_def)
qed

lemma fold_store_length [simp]: "length (fold (\<lambda>i r. r[i := f i]) is rs) = length rs"
  by (induction "is" arbitrary: rs) simp_all

lemma fold_store_nth:
  "j < length rs \<Longrightarrow> fold (\<lambda>i r. r[i := f i]) is rs ! j = (if j \<in> set is then f j else rs ! j)"
proof (induction "is" rule: rev_induct)
  case Nil
  then show ?case by simp
next
  case (snoc i "is")
  then show ?case by (cases "i = j") (simp_all add: nth_list_update)
qed

lemma fold_store_all:
  assumes "set is = {..<length ts}"
  shows "fold (\<lambda>i r. r[i := ts ! i]) is (replicate (length ts) x) = ts"
  by (rule nth_equalityI) (simp_all add: fold_store_nth assms)

text \<open>
  C1. For every list of input futures and every order in which they complete (and
  whenever \<^verbatim>\<open>collectAll\<close> itself returns among these events), the returned future is
  not ready before the last of these events, and then holds a value: the vector of the
  \<open>n\<close> results, the result of future \<open>i\<close> at position \<open>i\<close>. The promise is
  fulfilled once, no exception leaves a callback, and the future never holds an error of
  its own.
\<close>

theorem collectAll_in_input_order:
  assumes "schedule (length ts) sched" and "k \<le> length sched"
  shows "collectAll ts (take k sched) = (if k = length sched then Some (Value ts) else None) \<and>
         rejected (p_ca (ctx_of (collectAllSemiFuture ts (take k sched)))) = 0 \<and>
         escaped (collectAllSemiFuture ts (take k sched)) = []"
proof (cases "k = length sched")
  case True
  have "set (completions sched) = {..<length ts}" using assms(1) by (rule schedule_completions)
  then show ?thesis using True
    by (simp add: collectAll_def collectAllSemiFuture_def mapSetCallback_all[OF assms(1)]
        collectAll_callbacks destroyCollectAllContext_def makeCollectAllContext_def setValue_def
        makePromise_def destroyPromise_def thrown_def fold_store_all)
next
  case False
  then have "k < length sched" using assms(2) by simp
  then show ?thesis using False
    by (simp add: collectAll_def collectAllSemiFuture_def mapSetCallback_before[OF assms(1)]
        collectAll_callbacks makeCollectAllContext_def makePromise_def)
qed

lemma schedule_example:
  "schedule (length [Value (1::nat), Exception (UserError 7), Value 3])
     [Complete 2, Return, Complete 0, Complete 1]"
  by (auto simp: schedule_def lessThan_Suc numeral_3_eq_3)

theorem collectAll_in_input_order_witness:
  "schedule (length [Value (1::nat), Exception (UserError 7), Value 3])
     [Complete 2, Return, Complete 0, Complete 1] \<and>
   collectAll [Value (1::nat), Exception (UserError 7), Value 3]
     [Complete 2, Return, Complete 0, Complete 1] =
     Some (Value [Value 1, Exception (UserError 7), Value 3]) \<and>
   collectAll [Value (1::nat), Exception (UserError 7), Value 3]
     [Complete 2, Return, Complete 0] = None"
  using collectAll_in_input_order[OF schedule_example, of 4]
    collectAll_in_input_order[OF schedule_example, of 3] schedule_example
  by simp

subsection \<open>collect\<close>

lemma errors_of_append [simp]: "errors_of (xs @ ys) = errors_of xs @ errors_of ys"
  by (induction xs rule: errors_of.induct) simp_all

lemma errors_of_set: "set (errors_of xs) = {e. Exception e \<in> set xs}"
  by (induction xs rule: errors_of.induct) auto

lemma errors_of_Nil_iff: "errors_of xs = [] \<longleftrightarrow> (\<forall>e. Exception e \<notin> set xs)"
  using errors_of_set[of xs] by auto

lemma values_of_all:
  "Nothing \<notin> set ts \<Longrightarrow> errors_of ts = [] \<Longrightarrow> map Value (values_of ts) = ts"
  by (induction ts rule: values_of.induct) simp_all

lemma value_opt_all:
  "Nothing \<notin> set ts \<Longrightarrow> errors_of ts = [] \<Longrightarrow> map value_opt ts = map Some (values_of ts)"
  by (induction ts rule: values_of.induct) simp_all

lemma transform_values_Some: "transform_values (map Some xs) out = Inr (out @ xs)"
  by (induction xs arbitrary: out) simp_all

lemma collect_inv_step:
  assumes inv: "collect_inv ts is ce" and i: "i < length ts" and t: "ts ! i \<noteq> Nothing"
  shows "collect_inv ts (is @ [i]) (run_callback collect_callback ts i ce)"
proof (cases "ts ! i")
  case (Value x)
  show ?thesis
  proof (cases "errors_of (map ((!) ts) is)")
    case Nil
    have upd: "(map (\<lambda>j. if j \<in> set is then value_opt (ts ! j) else None) [0..<length ts])[i := Some x] =
        map (\<lambda>j. if j = i \<or> j \<in> set is then value_opt (ts ! j) else None) [0..<length ts]"
      using i Value by (intro nth_equalityI) (auto simp: nth_list_update)
    show ?thesis using inv Value Nil upd
      by (simp add: collect_inv_def run_callback_def collect_callback_def setPartialResult_cc_def
          thrown_def)
  next
    case (Cons e es)
    then show ?thesis using inv Value
      by (simp add: collect_inv_def run_callback_def collect_callback_def thrown_def)
  qed
next
  case (Exception e)
  show ?thesis
  proof (cases "errors_of (map ((!) ts) is)")
    case Nil
    then show ?thesis using inv Exception
      by (simp add: collect_inv_def run_callback_def collect_callback_def thrown_def
          setException_def makePromise_def)
  next
    case (Cons e' es)
    then show ?thesis using inv Exception
      by (simp add: collect_inv_def run_callback_def collect_callback_def thrown_def)
  qed
next
  case Nothing
  then show ?thesis using t by simp
qed

lemma collect_callbacks:
  assumes "Nothing \<notin> set ts" "set is \<subseteq> {..<length ts}"
  shows "collect_inv ts is (run_callbacks collect_callback ts is (makeCollectContext (length ts)))"
  using assms(2)
proof (induction "is" rule: rev_induct)
  case Nil
  show ?case
    by (simp add: collect_inv_def run_callbacks_def makeCollectContext_def map_replicate_const)
next
  case (snoc i "is")
  then have i: "i < length ts" by simp
  then have "ts ! i \<noteq> Nothing" using assms(1) nth_mem by metis
  then show ?case using snoc i by (simp add: run_callbacks_snoc collect_inv_step)
qed

lemma completions_take_bound:
  assumes "schedule n sched"
  shows "set (completions (take k sched)) \<subseteq> {..<n}"
proof
  fix i assume "i \<in> set (completions (take k sched))"
  then have "Complete i \<in> set (take k sched)" by (simp add: completions_set)
  then have "Complete i \<in> set sched" by (rule in_set_takeD)
  then show "i \<in> {..<n}" using schedule_bound[OF assms] by simp
qed

lemma map_nth_all:
  assumes "set is = {..<length ts}"
  shows "map (\<lambda>j. if j \<in> set is then f (ts ! j) else d) [0..<length ts] = map f ts"
  by (rule nth_equalityI) (simp_all add: assms)

lemma errors_of_completions:
  assumes "schedule (length ts) sched"
  shows "set (errors_of (map ((!) ts) (completions sched))) = set (errors_of ts)"
proof -
  have "set (completions sched) = {..<length ts}" using assms by (rule schedule_completions)
  then have "set (map ((!) ts) (completions sched)) = (!) ts ` {..<length ts}" by simp
  also have "\<dots> = set ts" by (simp add: set_conv_nth image_def lessThan_def) blast
  finally have "set (map ((!) ts) (completions sched)) = set ts" .
  then show ?thesis by (simp add: errors_of_set)
qed

text \<open>
  C2. For every list of input futures, each completing with a value or an error, and
  every order of completion: as soon as an input has completed with an error, the future
  of \<^verbatim>\<open>collect\<close> holds the first error in completion order, and nothing that
  completes later changes it; while no input has failed it is not ready, and when all
  have completed with values (and \<^verbatim>\<open>collect\<close> has returned) it holds the vector of
  all \<open>n\<close> values in input order. The promise is fulfilled once and no exception
  leaves a callback or the destructor.
\<close>

theorem collect_first_error:
  assumes "schedule (length ts) sched" and "Nothing \<notin> set ts" and "k \<le> length sched"
  shows "collect ts (take k sched) =
           (case errors_of (map ((!) ts) (completions (take k sched))) of
              e # es \<Rightarrow> Some (Exception e)
            | [] \<Rightarrow> if k = length sched then Some (Value (values_of ts)) else None) \<and>
         rejected (p_cc (ctx_of (collect_run ts (take k sched)))) = 0 \<and>
         escaped (collect_run ts (take k sched)) = [] \<and>
         set (errors_of (map ((!) ts) (completions sched))) = set (errors_of ts) \<and>
         (errors_of ts = [] \<longrightarrow> map Value (values_of ts) = ts)"
proof -
  let ?cs = "completions (take k sched)"
  let ?ce = "run_callbacks collect_callback ts ?cs (makeCollectContext (length ts))"
  have inv: "collect_inv ts ?cs ?ce"
    using assms(2) completions_take_bound[OF assms(1)] by (rule collect_callbacks)
  have rest: "set (errors_of (map ((!) ts) (completions sched))) = set (errors_of ts) \<and>
         (errors_of ts = [] \<longrightarrow> map Value (values_of ts) = ts)"
    using errors_of_completions[OF assms(1)] values_of_all[OF assms(2)] by simp
  show ?thesis
  proof (cases "k = length sched")
    case False
    then have k: "k < length sched" using assms(3) by simp
    show ?thesis using inv False rest
      by (simp add: collect_def collect_run_def mapSetCallback_before[OF assms(1) k]
          collect_inv_def makePromise_def split: list.splits)
  next
    case True
    then have tk: "take k sched = sched" by simp
    have all: "set (completions sched) = {..<length ts}"
      using assms(1) by (rule schedule_completions)
    show ?thesis
    proof (cases "errors_of (map ((!) ts) (completions sched))")
      case Nil
      then have "set (errors_of ts) = {}" using errors_of_completions[OF assms(1)] by simp
      then have noerr: "errors_of ts = []" by simp
      let ?c = "fst (run_callbacks collect_callback ts (completions sched) (makeCollectContext (length ts)))"
      have inv': "collect_inv ts (completions sched)
          (run_callbacks collect_callback ts (completions sched) (makeCollectContext (length ts)))"
        using inv tk by simp
      have res: "result_cc ?c = map Some (values_of ts)"
        using inv' Nil map_nth_all[OF all, of value_opt None] value_opt_all[OF assms(2) noerr]
        by (simp add: collect_inv_def)
      have threw: "\<not> threw_cc ?c" and p: "p_cc ?c = makePromise"
        and fin: "finalResult_cc ?c = []"
        and es: "snd (run_callbacks collect_callback ts (completions sched)
                  (makeCollectContext (length ts))) = []"
        using inv' Nil by (simp_all add: collect_inv_def)
      have d: "destroyCollectContext ?c =
          (?c\<lparr>threw_cc := True, finalResult_cc := values_of ts,
               p_cc := \<lparr>core_result = Some (Value (values_of ts)), rejected = 0\<rparr>\<rparr>, None)"
        unfolding destroyCollectContext_def Let_def
        by (simp add: threw res fin transform_values_Some p setValue_def makePromise_def
            destroyPromise_def)
      have "core_result (p_cc (ctx_of (collect_run ts sched))) = Some (Value (values_of ts)) \<and>
            rejected (p_cc (ctx_of (collect_run ts sched))) = 0 \<and>
            escaped (collect_run ts sched) = []"
        by (simp add: collect_run_def mapSetCallback_all[OF assms(1)] d es thrown_def)
      then show ?thesis using Nil True rest unfolding tk by (simp add: collect_def)
    next
      case (Cons e es)
      then show ?thesis using inv True rest unfolding tk
        by (simp add: collect_def collect_run_def mapSetCallback_all[OF assms(1)]
            collect_inv_def destroyCollectContext_def destroyPromise_def thrown_def)
    qed
  qed
qed

lemma schedule_example3: "schedule (Suc (Suc (Suc 0))) [Complete 2, Return, Complete 1, Complete 0]"
  by (auto simp: schedule_def lessThan_Suc)

theorem collect_first_error_witness:
  "schedule (length [Exception (UserError 1), Exception (UserError 2), Value (3::nat)])
     [Complete 2, Return, Complete 1, Complete 0] \<and>
   Nothing \<notin> set [Exception (UserError 1), Exception (UserError 2), Value (3::nat)] \<and>
   collect [Exception (UserError 1), Exception (UserError 2), Value (3::nat)]
     [Complete 2, Return, Complete 1] = Some (Exception (UserError 2)) \<and>
   collect [Exception (UserError 1), Exception (UserError 2), Value (3::nat)]
     [Complete 2, Return, Complete 1, Complete 0] = Some (Exception (UserError 2)) \<and>
   collect [Value (1::nat), Value 2, Value 3] [Complete 2, Return, Complete 1, Complete 0] =
     Some (Value [1, 2, 3])"
proof -
  let ?ts = "[Exception (UserError 1), Exception (UserError 2), Value (3::nat)]"
  let ?vs = "[Value (1::nat), Value 2, Value 3]"
  let ?sched = "[Complete 2, Return, Complete 1, Complete 0]"
  have s: "schedule (length ?ts) ?sched" "schedule (length ?vs) ?sched"
    using schedule_example3 by simp_all
  have n: "Nothing \<notin> set ?ts" "Nothing \<notin> set ?vs" by simp_all
  show ?thesis
    using collect_first_error[OF s(1) n(1), of 3] collect_first_error[OF s(1) n(1), of 4]
      collect_first_error[OF s(2) n(2), of 4] s(1) n(1)
    by simp
qed

subsection \<open>collectAnyWithoutException\<close>

lemma cawe_inv_step:
  assumes inv: "cawe_inv ts is ce" and i: "i < length ts" and t: "ts ! i \<noteq> Nothing"
    and len: "length is < length ts"
  shows "cawe_inv ts (is @ [i]) (run_callback collectAnyWithoutException_callback ts i ce)"
proof (cases "ts ! i")
  case (Value x)
  show ?thesis
  proof (cases "filter (\<lambda>i. hasValue (ts ! i)) is")
    case Nil
    then show ?thesis using inv Value len
      by (simp add: cawe_inv_def run_callback_def collectAnyWithoutException_callback_def
          Let_def thrown_def setValue_def makePromise_def)
  next
    case (Cons w ws)
    then have "is \<noteq> []" by auto
    then have "0 < length is" by simp
    then show ?thesis using inv Value len Cons
      by (simp add: cawe_inv_def run_callback_def collectAnyWithoutException_callback_def
          Let_def thrown_def)
  qed
next
  case (Exception e)
  show ?thesis
  proof (cases "filter (\<lambda>i. hasValue (ts ! i)) is")
    case Nil
    then show ?thesis using inv Exception len
      by (simp add: cawe_inv_def run_callback_def collectAnyWithoutException_callback_def
          Let_def thrown_def setException_def makePromise_def)
  next
    case (Cons w ws)
    then have "is \<noteq> []" by auto
    then have "0 < length is" by simp
    then show ?thesis using inv Exception len Cons
      by (simp add: cawe_inv_def run_callback_def collectAnyWithoutException_callback_def
          Let_def thrown_def)
  qed
next
  case Nothing
  then show ?thesis using t by simp
qed

lemma distinct_bounded_length:
  assumes "distinct is" "set is \<subseteq> {..<n::nat}"
  shows "length is \<le> n"
proof -
  have "card (set is) \<le> card {..<n}" using assms(2) by (intro card_mono) simp_all
  then show ?thesis using assms(1) by (simp add: distinct_card)
qed

lemma cawe_callbacks:
  assumes "Nothing \<notin> set ts" "distinct is" "set is \<subseteq> {..<length ts}"
  shows "cawe_inv ts is
     (run_callbacks collectAnyWithoutException_callback ts is
        (makeCollectAnyWithoutExceptionContext (length ts)))"
  using assms(2,3)
proof (induction "is" rule: rev_induct)
  case Nil
  show ?case
    by (simp add: cawe_inv_def run_callbacks_def makeCollectAnyWithoutExceptionContext_def)
next
  case (snoc i "is")
  then have i: "i < length ts" by simp
  then have t: "ts ! i \<noteq> Nothing" using assms(1) nth_mem by metis
  have "length (is @ [i]) \<le> length ts"
    using snoc.prems by (rule distinct_bounded_length)
  then have len: "length is < length ts" by simp
  have "cawe_inv ts is
     (run_callbacks collectAnyWithoutException_callback ts is
        (makeCollectAnyWithoutExceptionContext (length ts)))"
    using snoc by simp
  then show ?case using i t len by (simp add: run_callbacks_snoc cawe_inv_step)
qed

text \<open>
  C7. For every list of input futures, each completing with a value or an error, and
  every order of completion: once an input has completed with a value, the future of
  \<^verbatim>\<open>collectAnyWithoutException\<close> holds the pair of the index and the value of the
  first input that did so, whatever errors came before or come after; when every input
  has completed with an error it holds the error of the last input to complete; before
  that it is not ready. The promise is fulfilled once in either case. (For an empty
  range there is no input to win or to be last: the promise is destroyed unfulfilled.)
\<close>

theorem collectAnyWithoutException_first_value:
  assumes "schedule (length ts) sched" and "Nothing \<notin> set ts" and "k \<le> length sched"
  shows "collectAnyWithoutException ts (take k sched) =
           (let cs = completions (take k sched) in
            case filter (\<lambda>i. hasValue (ts ! i)) cs of
              i # ws \<Rightarrow> Some (map_Try (Pair i) (ts ! i))
            | [] \<Rightarrow>
                if cs \<noteq> [] \<and> length cs = length ts
                then Some (map_Try (Pair (last cs)) (ts ! last cs))
                else if k = length sched then Some (Exception BrokenPromise) else None) \<and>
         rejected (p_cawe (ctx_of (collectAnyWithoutException_run ts (take k sched)))) = 0 \<and>
         escaped (collectAnyWithoutException_run ts (take k sched)) = []"
proof -
  let ?cs = "completions (take k sched)"
  let ?ce = "run_callbacks collectAnyWithoutException_callback ts ?cs
               (makeCollectAnyWithoutExceptionContext (length ts))"
  have d: "distinct ?cs"
    using assms(1) by (intro completions_distinct distinct_take) (simp add: schedule_def)
  have inv: "cawe_inv ts ?cs ?ce"
    using assms(2) d completions_take_bound[OF assms(1)] by (rule cawe_callbacks)
  show ?thesis
  proof (cases "k = length sched")
    case False
    then have k: "k < length sched" using assms(3) by simp
    show ?thesis using inv False
      by (simp add: collectAnyWithoutException_def collectAnyWithoutException_run_def
          mapSetCallback_before[OF assms(1) k] cawe_inv_def Let_def makePromise_def
          split: list.splits)
  next
    case True
    then have tk: "take k sched = sched" by simp
    show ?thesis using inv True unfolding tk
      by (simp add: collectAnyWithoutException_def collectAnyWithoutException_run_def
          mapSetCallback_all[OF assms(1)] cawe_inv_def Let_def makePromise_def
          destroyCollectAnyWithoutExceptionContext_def destroyPromise_def setException_def
          thrown_def split: list.splits)
  qed
qed

theorem collectAnyWithoutException_first_value_witness:
  "schedule (length [Exception (UserError 1), Value (20::nat), Value 30])
     [Complete 0, Complete 2, Return, Complete 1] \<and>
   Nothing \<notin> set [Exception (UserError 1), Value (20::nat), Value 30] \<and>
   collectAnyWithoutException [Exception (UserError 1), Value (20::nat), Value 30]
     [Complete 0] = None \<and>
   collectAnyWithoutException [Exception (UserError 1), Value (20::nat), Value 30]
     [Complete 0, Complete 2, Return, Complete 1] = Some (Value (2, 30)) \<and>
   collectAnyWithoutException
     [Exception (UserError 1), Exception (UserError 2), Exception (UserError 3) :: nat Try]
     [Complete 0, Complete 2, Return, Complete 1] = Some (Exception (UserError 2))"
proof -
  let ?ts = "[Exception (UserError 1), Value (20::nat), Value 30]"
  let ?es = "[Exception (UserError 1), Exception (UserError 2), Exception (UserError 3) :: nat Try]"
  let ?sched = "[Complete 0, Complete 2, Return, Complete 1]"
  have s0: "schedule (Suc (Suc (Suc 0))) ?sched"
    by (auto simp: schedule_def lessThan_Suc)
  have s: "schedule (length ?ts) ?sched" "schedule (length ?es) ?sched"
    using s0 by simp_all
  have n: "Nothing \<notin> set ?ts" "Nothing \<notin> set ?es" by simp_all
  show ?thesis
    using collectAnyWithoutException_first_value[OF s(1) n(1), of 1]
      collectAnyWithoutException_first_value[OF s(1) n(1), of 4]
      collectAnyWithoutException_first_value[OF s(2) n(2), of 4] s(1) n(1)
    by simp
qed

subsection \<open>via with a null executor\<close>

text \<open>
  C9, as the code has it. \<^verbatim>\<open>SemiFuture::via\<close> with a null executor fails with
  \<^verbatim>\<open>FutureNoExecutor\<close>, for every SemiFuture (valid or not, with or without a
  placeholder) and before anything is touched. \<^verbatim>\<open>Future::via\<close> makes no such test: on
  a valid Future it binds whatever executor it is given, a null one included, and
  succeeds.
\<close>

theorem via_null_executor:
  "SemiFuture_via None priority sf = Inl FutureNoExecutor \<and>
   Future_via executor priority (Some c) =
     Inr (Some (c\<lparr>executor_core := map_option Executor executor, priority_core := priority\<rparr>))"
  by (simp add: SemiFuture_via_def Future_via_def getCore_def)

text \<open>
  The claim as stated fails for a Future: \<^verbatim>\<open>via\<close> with a null executor on a pending
  Future bound to executor 1 returns a Future with no executor, and no error.
\<close>

theorem via_null_executor_counterexample:
  "Future_via None 0 (Some \<lparr>result_core = None :: nat Try option, executor_core = Some (Executor 1),
                            priority_core = 0\<rparr>) =
     Inr (Some \<lparr>result_core = None, executor_core = None, priority_core = 0\<rparr>) \<and>
   Future_via None 0 (Some \<lparr>result_core = None :: nat Try option, executor_core = Some (Executor 1),
                            priority_core = 0\<rparr>) \<noteq> Inl FutureNoExecutor"
  by (simp add: Future_via_def getCore_def)

subsection \<open>A timed wait on the placeholder\<close>

lemma wait_inv_armed: "wait_inv armed"
  by (simp add: wait_inv_def armed_def makeDeferredExecutor_def)

lemma wait_inv_wait_step: "wait_inv s \<Longrightarrow> wait_inv (wait_step s)"
  unfolding wait_inv_def wait_step_def
  by (cases "waiter s"; cases "dispatched (adder s)")
     (auto simp: runAndDestroy_def split: add_pc.splits if_splits)

lemma wait_inv_expire_step: "wait_inv s \<Longrightarrow> wait_inv (expire_step s)"
  unfolding wait_inv_def expire_step_def
  by (cases "waiter s"; cases "dispatched (adder s)")
     (auto split: add_pc.splits if_splits)

lemma wait_inv_add_step: "wait_inv s \<Longrightarrow> wait_inv (add_step s)"
  unfolding wait_inv_def add_step_def
  by (cases "adder s"; cases "waiter s")
     (auto split: if_splits option.splits)

lemma wait_inv_step: "wait_inv s \<Longrightarrow> wait_inv (step a s)"
  by (cases a) (simp_all add: step_def wait_inv_wait_step wait_inv_add_step wait_inv_expire_step)

lemma wait_inv_run_from: "wait_inv s \<Longrightarrow> wait_inv (run_from s as)"
  unfolding run_from_def by (induction as arbitrary: s) (simp_all add: wait_inv_step)

lemma run_from_append: "run_from s (as @ bs) = run_from (run_from s as) bs"
  by (simp add: run_from_def)

lemmas wait_steps = run_from_def step_def wait_step_def expire_step_def add_step_def

lemma wait_before_dispatch:
  assumes "wait_inv s" "\<not> dispatched (adder s)"
  shows "(waiter s = W_reload \<or> (\<exists>b. waiter s = W_wait b) \<or> (\<exists>st. waiter s = W_revert st)
            \<longrightarrow> state_de (de s) = HAS_BATON) \<and>
         (\<forall>r. waiter s = W_return r \<or> waiter s = W_done r \<longrightarrow>
            \<not> r \<and> state_de (de s) = EMPTY \<and> \<not> isReady s)"
  using assms unfolding wait_inv_def isReady_def by (cases "waiter s") auto

lemma wait_times_out:
  assumes "wait_inv s" "\<not> dispatched (adder s)"
  shows "waiter (run_from s [Waiter, Waiter, Waiter, Expire, Waiter, Waiter, Waiter]) = W_done False \<and>
         state_de (de (run_from s [Waiter, Waiter, Waiter, Expire, Waiter, Waiter, Waiter])) = EMPTY \<and>
         \<not> isReady (run_from s [Waiter, Waiter, Waiter, Expire, Waiter, Waiter, Waiter]) \<and>
         adder (run_from s [Waiter, Waiter, Waiter, Expire, Waiter, Waiter, Waiter]) = adder s"
  using assms unfolding wait_inv_def isReady_def
  by (cases "waiter s") (auto simp: wait_steps)

lemma dispatched_stays:
  assumes "wait_inv s" "dispatched (adder s)" "waiter s \<noteq> W_return False" "waiter s \<noteq> W_done False"
  shows "wait_inv (step a s) \<and> dispatched (adder (step a s)) \<and>
         waiter (step a s) \<noteq> W_return False \<and> waiter (step a s) \<noteq> W_done False"
proof -
  have inv: "wait_inv (step a s)" using assms(1) by (rule wait_inv_step)
  have rest: "dispatched (adder (step a s)) \<and>
         waiter (step a s) \<noteq> W_return False \<and> waiter (step a s) \<noteq> W_done False"
  proof (cases a)
    case Waiter
    then show ?thesis using assms unfolding wait_inv_def
      by (cases "waiter s") (auto simp: step_def wait_step_def runAndDestroy_def split: if_splits)
  next
    case Dispatcher
    then show ?thesis using assms unfolding wait_inv_def
      by (cases "adder s") (auto simp: step_def add_step_def split: option.splits)
  next
    case Expire
    then show ?thesis using assms unfolding wait_inv_def
      by (cases "waiter s") (auto simp: step_def expire_step_def)
  qed
  show ?thesis using inv rest by simp
qed

lemma dispatched_run:
  assumes "wait_inv s" "dispatched (adder s)" "waiter s \<noteq> W_return False" "waiter s \<noteq> W_done False"
  shows "wait_inv (run_from s post) \<and> dispatched (adder (run_from s post)) \<and>
         waiter (run_from s post) \<noteq> W_return False \<and> waiter (run_from s post) \<noteq> W_done False"
  using assms
proof (induction post arbitrary: s)
  case Nil
  then show ?case by (simp add: run_from_def)
next
  case (Cons a post)
  have "run_from s (a # post) = run_from (step a s) post" by (simp add: run_from_def)
  then show ?case using Cons.IH[of "step a s"] dispatched_stays[OF Cons.prems, of a] by simp
qed

lemma dispatched_ready:
  assumes "wait_inv s" "dispatched (adder s)" "waiter s = W_done True"
  shows "isReady s"
  using assms unfolding wait_inv_def isReady_def by simp

lemma run_from_Cons: "run_from s (a # as) = run_from (step a s) as"
  by (simp add: run_from_def)

lemma add_step_rank:
  assumes "wait_inv s" "\<not> dispatched (adder s)" "state_de (de s) = EMPTY"
  shows "waiter (add_step s) = waiter s \<and>
         (dispatched (adder (add_step s)) \<or>
          \<not> dispatched (adder (add_step s)) \<and> state_de (de (add_step s)) = EMPTY \<and>
          add_rank (adder (add_step s)) < add_rank (adder s))"
  using assms unfolding wait_inv_def
  by (cases "adder s") (auto simp: add_step_def)

lemma add_step_dispatched:
  "dispatched (adder s) \<Longrightarrow> dispatched (adder (add_step s)) \<and> waiter (add_step s) = waiter s"
  by (cases "adder s") (auto simp: add_step_def split: option.splits)

lemma add_steps_dispatched:
  "dispatched (adder s) \<Longrightarrow>
   dispatched (adder (run_from s (replicate k Dispatcher))) \<and>
   waiter (run_from s (replicate k Dispatcher)) = waiter s"
proof (induction k arbitrary: s)
  case 0
  then show ?case by (simp add: run_from_def)
next
  case (Suc k)
  then show ?case using add_step_dispatched[of s] Suc.IH[of "add_step s"]
    by (simp add: run_from_Cons step_def)
qed

lemma add_steps_progress:
  assumes "wait_inv s" "\<not> dispatched (adder s)" "state_de (de s) = EMPTY" "add_rank (adder s) \<le> k"
  shows "dispatched (adder (run_from s (replicate k Dispatcher))) \<and>
         waiter (run_from s (replicate k Dispatcher)) = waiter s"
  using assms
proof (induction k arbitrary: s)
  case 0
  then show ?case by (cases "adder s") (simp_all add: wait_inv_def split: if_splits)
next
  case (Suc k)
  have inv: "wait_inv (add_step s)" using Suc.prems(1) by (rule wait_inv_add_step)
  have r: "run_from s (replicate (Suc k) Dispatcher) = run_from (add_step s) (replicate k Dispatcher)"
    by (simp add: run_from_Cons step_def)
  show ?case
  proof (cases "dispatched (adder (add_step s))")
    case True
    then show ?thesis using add_steps_dispatched[of "add_step s" k] add_step_rank[OF Suc.prems(1-3)]
      unfolding r by simp
  next
    case False
    then have "state_de (de (add_step s)) = EMPTY" "add_rank (adder (add_step s)) \<le> k"
      "waiter (add_step s) = waiter s"
      using add_step_rank[OF Suc.prems(1-3)] Suc.prems(4) by auto
    then show ?thesis using Suc.IH[OF inv False] unfolding r by simp
  qed
qed

lemma add_rank_le: "wait_inv s \<Longrightarrow> add_rank (adder s) \<le> 5"
  unfolding wait_inv_def by (cases "adder s") auto


lemma wait_step_rank:
  assumes "wait_inv s" "dispatched (adder s)" "waiter s \<noteq> W_return False" "waiter s \<noteq> W_done False"
    and "\<forall>b. waiter s = W_wait b \<longrightarrow> b \<in> posted_de (de s)"
  shows "(\<forall>b. waiter (wait_step s) = W_wait b \<longrightarrow> b \<in> posted_de (de (wait_step s))) \<and>
         wait_rank (waiter (wait_step s)) \<le> wait_rank (waiter s) - 1 \<and>
         adder (wait_step s) = adder s"
  using assms unfolding wait_inv_def
  by (cases "waiter s") (auto simp: wait_step_def runAndDestroy_def)

lemma wait_steps_progress:
  assumes "wait_inv s" "dispatched (adder s)" "waiter s \<noteq> W_return False" "waiter s \<noteq> W_done False"
    and "\<forall>b. waiter s = W_wait b \<longrightarrow> b \<in> posted_de (de s)"
  shows "wait_rank (waiter (run_from s (replicate k Waiter))) \<le> wait_rank (waiter s) - k"
  using assms
proof (induction k arbitrary: s)
  case 0
  then show ?case by (simp add: run_from_def)
next
  case (Suc k)
  have r: "run_from s (replicate (Suc k) Waiter) = run_from (wait_step s) (replicate k Waiter)"
    by (simp add: run_from_Cons step_def)
  have st: "wait_inv (wait_step s) \<and> dispatched (adder (wait_step s)) \<and>
      waiter (wait_step s) \<noteq> W_return False \<and> waiter (wait_step s) \<noteq> W_done False"
    using dispatched_stays[OF Suc.prems(1-4), of Waiter] by (simp add: step_def)
  have rk: "(\<forall>b. waiter (wait_step s) = W_wait b \<longrightarrow> b \<in> posted_de (de (wait_step s))) \<and>
      wait_rank (waiter (wait_step s)) \<le> wait_rank (waiter s) - 1"
    using wait_step_rank[OF Suc.prems] by simp
  have "wait_rank (waiter (run_from (wait_step s) (replicate k Waiter))) \<le>
        wait_rank (waiter (wait_step s)) - k"
    using st rk by (intro Suc.IH) simp_all
  moreover have "wait_rank (waiter (wait_step s)) \<le> wait_rank (waiter s) - 1" using rk by simp
  ultimately have "wait_rank (waiter (run_from (wait_step s) (replicate k Waiter))) \<le>
        wait_rank (waiter s) - 1 - k" by linarith
  then show ?case unfolding r by simp
qed

lemma wait_rank_le: "wait_rank pc \<le> 4"
  by (cases pc) simp_all

lemma wait_rank_0: "wait_rank pc = 0 \<Longrightarrow> pc = W_failed \<or> (\<exists>r. pc = W_done r)"
  by (cases pc) (simp_all split: if_splits)

lemma expire_unblocks:
  assumes "wait_inv s" "dispatched (adder s)" "waiter s \<noteq> W_return False" "waiter s \<noteq> W_done False"
  shows "\<forall>b. waiter (expire_step s) = W_wait b \<longrightarrow> b \<in> posted_de (de (expire_step s))"
  by (cases "waiter s") (simp_all add: expire_step_def)


lemma wait_returns_ready:
  assumes "wait_inv s" "dispatched (adder s)" "waiter s \<noteq> W_return False" "waiter s \<noteq> W_done False"
  shows "waiter (run_from s (Expire # replicate 4 Waiter)) = W_done True \<and>
         isReady (run_from s (Expire # replicate 4 Waiter))"
proof -
  let ?s1 = "step Expire s"
  let ?s2 = "run_from ?s1 (replicate 4 Waiter)"
  have s1: "wait_inv ?s1 \<and> dispatched (adder ?s1) \<and>
      waiter ?s1 \<noteq> W_return False \<and> waiter ?s1 \<noteq> W_done False"
    using dispatched_stays[OF assms, of Expire] .
  have ub: "\<forall>b. waiter ?s1 = W_wait b \<longrightarrow> b \<in> posted_de (de ?s1)"
    using expire_unblocks[OF assms] by (simp add: step_def)
  have "wait_rank (waiter ?s2) \<le> wait_rank (waiter ?s1) - 4"
    using s1 ub by (intro wait_steps_progress) simp_all
  then have "wait_rank (waiter ?s2) = 0" using wait_rank_le[of "waiter ?s1"] by simp
  then have pc: "waiter ?s2 = W_failed \<or> (\<exists>r. waiter ?s2 = W_done r)" by (rule wait_rank_0)
  have s2: "wait_inv ?s2 \<and> dispatched (adder ?s2) \<and>
      waiter ?s2 \<noteq> W_return False \<and> waiter ?s2 \<noteq> W_done False"
    using s1 by (intro dispatched_run) simp_all
  then have "waiter ?s2 \<noteq> W_failed" unfolding wait_inv_def by auto
  then have fin: "waiter ?s2 = W_done True" using pc s2 by (metis (full_types))
  then have "isReady ?s2" using s2 dispatched_ready by blast
  then show ?thesis using fin by (simp add: run_from_Cons)
qed

lemma reusable_by_executor:
  assumes "wait_inv s" "\<not> dispatched (adder s)" "waiter s = W_done False"
  shows "state_de (de (run_from s (replicate 5 Dispatcher))) = HAS_FUNCTION \<and>
         func_de (de (run_from s (replicate 5 Dispatcher))) \<and>
         \<not> isReady (run_from s (replicate 5 Dispatcher)) \<and>
         map_sum id ran_de (attach_executor e (de (run_from s (replicate 5 Dispatcher)))) = Inr 1"
proof -
  let ?u = "run_from s (replicate 5 Dispatcher)"
  have e: "state_de (de s) = EMPTY" using assms unfolding wait_inv_def by simp
  have d: "dispatched (adder ?u) \<and> waiter ?u = waiter s"
    using assms(1,2) e add_rank_le[OF assms(1)] by (rule add_steps_progress)
  have inv: "wait_inv ?u" using assms(1) by (rule wait_inv_run_from)
  have f: "func_de (de ?u)" using inv d unfolding wait_inv_def by (cases "adder ?u") simp_all
  have st: "state_de (de ?u) = HAS_FUNCTION" "ran_de (de ?u) = 0" "added_de (de ?u) = []"
    using inv d assms(3) unfolding wait_inv_def by simp_all
  show ?thesis using st f
    by (simp add: isReady_def attach_executor_def setExecutor_def runAndDestroy_def Let_def)
qed

lemma reusable_by_waiter:
  assumes "wait_inv s" "\<not> dispatched (adder s)" "waiter s = W_done False"
  shows "waiter (run_from (s\<lparr>waiter := W_load\<rparr>) (replicate 5 Dispatcher @ replicate 4 Waiter)) =
           W_done True \<and>
         isReady (run_from (s\<lparr>waiter := W_load\<rparr>) (replicate 5 Dispatcher @ replicate 4 Waiter))"
proof -
  let ?s = "s\<lparr>waiter := W_load\<rparr>"
  let ?u = "run_from ?s (replicate 5 Dispatcher)"
  let ?w = "run_from ?u (replicate 4 Waiter)"
  have e: "state_de (de ?s) = EMPTY" using assms unfolding wait_inv_def by simp
  have inv0: "wait_inv ?s" using assms unfolding wait_inv_def
    by (cases "adder s") simp_all
  have nd: "\<not> dispatched (adder ?s)" using assms(2) by simp
  have d: "dispatched (adder ?u) \<and> waiter ?u = waiter ?s"
    using inv0 nd e add_rank_le[OF inv0] by (rule add_steps_progress)
  then have w: "waiter ?u = W_load" by simp
  have inv: "wait_inv ?u" using inv0 by (rule wait_inv_run_from)
  have "wait_rank (waiter ?w) \<le> wait_rank (waiter ?u) - 4"
    using inv d w by (intro wait_steps_progress) simp_all
  then have "wait_rank (waiter ?w) = 0" using w by simp
  then have pc: "waiter ?w = W_failed \<or> (\<exists>r. waiter ?w = W_done r)" by (rule wait_rank_0)
  have s2: "wait_inv ?w \<and> dispatched (adder ?w) \<and>
      waiter ?w \<noteq> W_return False \<and> waiter ?w \<noteq> W_done False"
    using inv d w by (intro dispatched_run) simp_all
  then have "waiter ?w \<noteq> W_failed" unfolding wait_inv_def by auto
  then have fin: "waiter ?w = W_done True" using pc s2 by (metis (full_types))
  then have "isReady ?w" using s2 dispatched_ready by blast
  then show ?thesis using fin by (simp add: run_from_append)
qed

text \<open>
  What a single timed wait does, for any interleaving \<open>pre\<close> with the dispatch of the
  continuation. As long as the continuation is not dispatched, the placeholder is
  \<open>HAS_BATON\<close> while the waiter waits or reverts, and a waiter that has returned has
  returned not ready with the placeholder back at \<open>EMPTY\<close>; if the duration now elapses
  with no step of the dispatch, the wait does return so, and if the dispatch then runs to
  its end before anyone else attaches, an executor or a second wait that comes after it
  runs the function. If instead the continuation is dispatched before the waiter has
  returned, then whatever happens afterwards (\<open>post\<close>) the wait never returns not ready;
  when it returns the function has run and the future is ready, and it does return once
  the duration has elapsed.
\<close>

theorem timed_wait_reverts:
  "(let s = run_from armed pre in
     (\<not> dispatched (adder s) \<longrightarrow>
        (waiter s = W_reload \<or> (\<exists>b. waiter s = W_wait b) \<or> (\<exists>st. waiter s = W_revert st)
           \<longrightarrow> state_de (de s) = HAS_BATON) \<and>
        (\<forall>r. waiter s = W_return r \<or> waiter s = W_done r \<longrightarrow>
           \<not> r \<and> state_de (de s) = EMPTY \<and> \<not> isReady s) \<and>
        (let t = run_from s [Waiter, Waiter, Waiter, Expire, Waiter, Waiter, Waiter] in
           waiter t = W_done False \<and> state_de (de t) = EMPTY \<and> \<not> isReady t \<and>
           (let u = run_from t (replicate 5 Dispatcher) in
              state_de (de u) = HAS_FUNCTION \<and> func_de (de u) \<and> \<not> isReady u \<and>
              map_sum id ran_de (attach_executor e (de u)) = Inr 1) \<and>
           (let w = run_from (t\<lparr>waiter := W_load\<rparr>) (replicate 5 Dispatcher @ replicate 4 Waiter) in
              waiter w = W_done True \<and> isReady w))) \<and>
     (dispatched (adder s) \<and> waiter s \<noteq> W_return False \<and> waiter s \<noteq> W_done False \<longrightarrow>
        waiter (run_from s post) \<noteq> W_return False \<and> waiter (run_from s post) \<noteq> W_done False \<and>
        (waiter (run_from s post) = W_done True \<longrightarrow> isReady (run_from s post)) \<and>
        (let t = run_from s (Expire # replicate 4 Waiter) in
           waiter t = W_done True \<and> isReady t)))"
proof -
  let ?s = "run_from armed pre"
  let ?t = "run_from ?s [Waiter, Waiter, Waiter, Expire, Waiter, Waiter, Waiter]"
  have inv: "wait_inv ?s" using wait_inv_armed by (rule wait_inv_run_from)
  have A: "\<not> dispatched (adder ?s) \<Longrightarrow>
        (waiter ?s = W_reload \<or> (\<exists>b. waiter ?s = W_wait b) \<or> (\<exists>st. waiter ?s = W_revert st)
           \<longrightarrow> state_de (de ?s) = HAS_BATON) \<and>
        (\<forall>r. waiter ?s = W_return r \<or> waiter ?s = W_done r \<longrightarrow>
           \<not> r \<and> state_de (de ?s) = EMPTY \<and> \<not> isReady ?s)"
    using wait_before_dispatch[OF inv] by blast
  have B: "\<not> dispatched (adder ?s) \<Longrightarrow>
        waiter ?t = W_done False \<and> state_de (de ?t) = EMPTY \<and> \<not> isReady ?t \<and>
        state_de (de (run_from ?t (replicate 5 Dispatcher))) = HAS_FUNCTION \<and>
        func_de (de (run_from ?t (replicate 5 Dispatcher))) \<and>
        \<not> isReady (run_from ?t (replicate 5 Dispatcher)) \<and>
        map_sum id ran_de (attach_executor e (de (run_from ?t (replicate 5 Dispatcher)))) = Inr 1 \<and>
        waiter (run_from (?t\<lparr>waiter := W_load\<rparr>) (replicate 5 Dispatcher @ replicate 4 Waiter)) =
          W_done True \<and>
        isReady (run_from (?t\<lparr>waiter := W_load\<rparr>) (replicate 5 Dispatcher @ replicate 4 Waiter))"
  proof -
    assume nd: "\<not> dispatched (adder ?s)"
    have t: "waiter ?t = W_done False \<and> state_de (de ?t) = EMPTY \<and> \<not> isReady ?t \<and>
        adder ?t = adder ?s"
      using inv nd by (rule wait_times_out)
    have invt: "wait_inv ?t" using inv by (rule wait_inv_run_from)
    have ndt: "\<not> dispatched (adder ?t)" using t nd by simp
    have wt: "waiter ?t = W_done False" using t by simp
    show ?thesis
      using t reusable_by_executor[OF invt ndt wt, of e] reusable_by_waiter[OF invt ndt wt]
      by simp
  qed
  have C: "dispatched (adder ?s) \<and> waiter ?s \<noteq> W_return False \<and> waiter ?s \<noteq> W_done False \<Longrightarrow>
        waiter (run_from ?s post) \<noteq> W_return False \<and> waiter (run_from ?s post) \<noteq> W_done False \<and>
        (waiter (run_from ?s post) = W_done True \<longrightarrow> isReady (run_from ?s post)) \<and>
        waiter (run_from ?s (Expire # replicate 4 Waiter)) = W_done True \<and>
        isReady (run_from ?s (Expire # replicate 4 Waiter))"
  proof -
    assume d: "dispatched (adder ?s) \<and> waiter ?s \<noteq> W_return False \<and> waiter ?s \<noteq> W_done False"
    have r: "wait_inv (run_from ?s post) \<and> dispatched (adder (run_from ?s post)) \<and>
         waiter (run_from ?s post) \<noteq> W_return False \<and> waiter (run_from ?s post) \<noteq> W_done False"
      using inv d by (intro dispatched_run) simp_all
    then have "waiter (run_from ?s post) = W_done True \<longrightarrow> isReady (run_from ?s post)"
      using dispatched_ready by blast
    moreover have "waiter (run_from ?s (Expire # replicate 4 Waiter)) = W_done True \<and>
        isReady (run_from ?s (Expire # replicate 4 Waiter))"
      using inv d by (intro wait_returns_ready) simp_all
    ultimately show ?thesis using r by simp
  qed
  show ?thesis unfolding Let_def using A B C by blast
qed


theorem timed_wait_reverts_witness:
  "\<not> dispatched (adder (run_from armed [])) \<and>
   state_de (de (run_from armed [Waiter, Waiter, Waiter])) = HAS_BATON \<and>
   waiter (run_from (run_from armed []) [Waiter, Waiter, Waiter, Expire, Waiter, Waiter, Waiter]) =
     W_done False \<and>
   state_de (de (run_from (run_from armed [])
     [Waiter, Waiter, Waiter, Expire, Waiter, Waiter, Waiter])) = EMPTY \<and>
   \<not> isReady (run_from (run_from armed [])
     [Waiter, Waiter, Waiter, Expire, Waiter, Waiter, Waiter]) \<and>
   dispatched (adder (run_from armed
     [Waiter, Waiter, Waiter, Dispatcher, Dispatcher, Dispatcher, Dispatcher])) \<and>
   waiter (run_from (run_from armed
     [Waiter, Waiter, Waiter, Dispatcher, Dispatcher, Dispatcher, Dispatcher])
     [Dispatcher, Waiter, Waiter]) = W_done True \<and>
   isReady (run_from (run_from armed
     [Waiter, Waiter, Waiter, Dispatcher, Dispatcher, Dispatcher, Dispatcher])
     [Dispatcher, Waiter, Waiter])"
proof -
  let ?pre = "[Waiter, Waiter, Waiter, Dispatcher, Dispatcher, Dispatcher, Dispatcher]"
  have a: "\<not> dispatched (adder (run_from armed []))"
    by (simp add: run_from_def armed_def)
  have b: "state_de (de (run_from armed [Waiter, Waiter, Waiter])) = HAS_BATON"
    by (simp add: wait_steps armed_def makeDeferredExecutor_def)
  have c: "dispatched (adder (run_from armed ?pre)) \<and>
      waiter (run_from armed ?pre) \<noteq> W_return False \<and> waiter (run_from armed ?pre) \<noteq> W_done False"
    by (simp add: wait_steps armed_def makeDeferredExecutor_def)
  have d: "waiter (run_from (run_from armed ?pre) [Dispatcher, Waiter, Waiter]) = W_done True"
    by (simp add: wait_steps armed_def makeDeferredExecutor_def runAndDestroy_def)
  show ?thesis
    using timed_wait_reverts[of "[]" 7 "[]"]
      timed_wait_reverts[of ?pre 7 "[Dispatcher, Waiter, Waiter]"] a b c d
    unfolding Let_def by simp
qed

text \<open>
  When \<^verbatim>\<open>add\<close> has not been called by the time the timed wait has returned not ready,
  the revert has left the placeholder as it was before the wait. An executor that attaches
  first finds it \<open>EMPTY\<close> and is handed the function when the dispatch comes; a waiter
  that attaches first arms it again and is woken by the dispatch, which posts the baton of
  this second wait.
\<close>

lemma reverted_state:
  assumes "wait_inv s" "adder s = A_load" "waiter s = W_done False"
  shows "\<exists>f x y i b. s =
     \<lparr>de = \<lparr>state_de = EMPTY, func_de = f, executor_de = x, baton_de = y,
              posted_de = {}, ran_de = 0, inline_de = i, added_de = [], deleted_de = False\<rparr>,
       waiter = W_done False, adder = A_load, batons = b\<rparr>"
proof -
  obtain D w a b where s: "s = \<lparr>de = D, waiter = w, adder = a, batons = b\<rparr>" by (cases s)
  obtain st f x y ps r i ad dl where D: "D =
      \<lparr>state_de = st, func_de = f, executor_de = x, baton_de = y,
        posted_de = ps, ran_de = r, inline_de = i, added_de = ad, deleted_de = dl\<rparr>"
    by (cases D)
  show ?thesis using assms unfolding s D wait_inv_def by simp
qed

lemma reusable_executor_first:
  assumes "wait_inv s" "adder s = A_load" "waiter s = W_done False"
  shows "\<exists>d. setExecutor e (de s) = Inr d \<and> state_de d = HAS_EXECUTOR \<and>
           (let u = run_from (s\<lparr>de := d\<rparr>) [Dispatcher, Dispatcher, Dispatcher]
            in adder u = A_done \<and> state_de (de u) = HAS_FUNCTION \<and> func_de (de u) \<and>
               added_de (de u) = [e] \<and> map_sum id ran_de (runAndDestroy (de u)) = Inr 1)"
proof -
  obtain f x y i b where s: "s =
     \<lparr>de = \<lparr>state_de = EMPTY, func_de = f, executor_de = x, baton_de = y,
              posted_de = {}, ran_de = 0, inline_de = i, added_de = [], deleted_de = False\<rparr>,
       waiter = W_done False, adder = A_load, batons = b\<rparr>"
    using reverted_state[OF assms] by blast
  show ?thesis unfolding s
    by (simp add: setExecutor_def Let_def wait_steps runAndDestroy_def)
qed

lemma reusable_waiter_first:
  assumes "wait_inv s" "adder s = A_load" "waiter s = W_done False"
  shows "(let w = run_from (s\<lparr>waiter := W_load\<rparr>) [Waiter, Waiter, Waiter];
              u = run_from w [Dispatcher, Dispatcher, Dispatcher, Dispatcher, Dispatcher];
              v = run_from u [Waiter, Waiter]
          in waiter w = W_wait (Suc (batons s)) \<and> state_de (de w) = HAS_BATON \<and>
             adder u = A_done \<and> state_de (de u) = HAS_FUNCTION \<and>
             posted_de (de u) = {Suc (batons s)} \<and>
             waiter v = W_done True \<and> isReady v)"
proof -
  obtain f x y i b where s: "s =
     \<lparr>de = \<lparr>state_de = EMPTY, func_de = f, executor_de = x, baton_de = y,
              posted_de = {}, ran_de = 0, inline_de = i, added_de = [], deleted_de = False\<rparr>,
       waiter = W_done False, adder = A_load, batons = b\<rparr>"
    using reverted_state[OF assms] by blast
  have w: "run_from (s\<lparr>waiter := W_load\<rparr>) [Waiter, Waiter, Waiter] =
     \<lparr>de = \<lparr>state_de = HAS_BATON, func_de = f, executor_de = x, baton_de = Some (Suc b),
              posted_de = {}, ran_de = 0, inline_de = i, added_de = [], deleted_de = False\<rparr>,
       waiter = W_wait (Suc b), adder = A_load, batons = Suc b\<rparr>"
    unfolding s by (simp add: wait_steps)
  have u: "run_from
     \<lparr>de = \<lparr>state_de = HAS_BATON, func_de = f, executor_de = x, baton_de = Some (Suc b),
              posted_de = {}, ran_de = 0, inline_de = i, added_de = [], deleted_de = False\<rparr>,
       waiter = W_wait (Suc b), adder = A_load, batons = Suc b\<rparr>
     [Dispatcher, Dispatcher, Dispatcher, Dispatcher, Dispatcher] =
     \<lparr>de = \<lparr>state_de = HAS_FUNCTION, func_de = True, executor_de = x, baton_de = Some (Suc b),
              posted_de = {Suc b}, ran_de = 0, inline_de = i, added_de = [], deleted_de = False\<rparr>,
       waiter = W_wait (Suc b), adder = A_done, batons = Suc b\<rparr>"
    by (simp add: wait_steps)
  have v: "run_from
     \<lparr>de = \<lparr>state_de = HAS_FUNCTION, func_de = True, executor_de = x, baton_de = Some (Suc b),
              posted_de = {Suc b}, ran_de = 0, inline_de = i, added_de = [], deleted_de = False\<rparr>,
       waiter = W_wait (Suc b), adder = A_done, batons = Suc b\<rparr> [Waiter, Waiter] =
     \<lparr>de = \<lparr>state_de = HAS_FUNCTION, func_de = True, executor_de = x, baton_de = Some (Suc b),
              posted_de = {Suc b}, ran_de = 1, inline_de = i, added_de = [], deleted_de = True\<rparr>,
       waiter = W_done True, adder = A_done, batons = Suc b\<rparr>"
    by (simp add: wait_steps runAndDestroy_def)
  have b: "batons s = b" unfolding s by simp
  show ?thesis unfolding Let_def w u v b by (simp add: isReady_def)
qed

lemma lost_first:
  "run_from armed
     [Waiter, Waiter, Waiter, Expire, Dispatcher, Dispatcher, Dispatcher, Waiter, Waiter, Waiter] =
   \<lparr>de = \<lparr>state_de = EMPTY, func_de = True, executor_de = None, baton_de = Some 1,
            posted_de = {}, ran_de = 0, inline_de = 0, added_de = [], deleted_de = False\<rparr>,
     waiter = W_done False, adder = A_cas HAS_BATON (Some 1), batons = 1\<rparr>"
  by (simp add: wait_steps armed_def makeDeferredExecutor_def)

lemma lost_second:
  "run_from
     \<lparr>de = \<lparr>state_de = EMPTY, func_de = True, executor_de = None, baton_de = Some 1,
            posted_de = {}, ran_de = 0, inline_de = 0, added_de = [], deleted_de = False\<rparr>,
       waiter = W_load, adder = A_cas HAS_BATON (Some 1), batons = 1\<rparr>
     [Waiter, Waiter, Waiter, Dispatcher, Dispatcher] =
   \<lparr>de = \<lparr>state_de = HAS_FUNCTION, func_de = True, executor_de = None, baton_de = Some 2,
            posted_de = {1}, ran_de = 0, inline_de = 0, added_de = [], deleted_de = False\<rparr>,
     waiter = W_wait 2, adder = A_done, batons = 2\<rparr>"
  by (simp add: wait_steps)

lemma lost_stuck:
  "step Waiter
     \<lparr>de = \<lparr>state_de = HAS_FUNCTION, func_de = True, executor_de = None, baton_de = Some 2,
            posted_de = {1}, ran_de = 0, inline_de = 0, added_de = [], deleted_de = False\<rparr>,
       waiter = W_wait 2, adder = A_done, batons = 2\<rparr> =
   \<lparr>de = \<lparr>state_de = HAS_FUNCTION, func_de = True, executor_de = None, baton_de = Some 2,
            posted_de = {1}, ran_de = 0, inline_de = 0, added_de = [], deleted_de = False\<rparr>,
     waiter = W_wait 2, adder = A_done, batons = 2\<rparr> \<and>
   step Dispatcher
     \<lparr>de = \<lparr>state_de = HAS_FUNCTION, func_de = True, executor_de = None, baton_de = Some 2,
            posted_de = {1}, ran_de = 0, inline_de = 0, added_de = [], deleted_de = False\<rparr>,
       waiter = W_wait 2, adder = A_done, batons = 2\<rparr> =
   \<lparr>de = \<lparr>state_de = HAS_FUNCTION, func_de = True, executor_de = None, baton_de = Some 2,
            posted_de = {1}, ran_de = 0, inline_de = 0, added_de = [], deleted_de = False\<rparr>,
     waiter = W_wait 2, adder = A_done, batons = 2\<rparr>"
  by (simp add: step_def wait_step_def add_step_def)

lemma lost_expiry:
  "run_from
     \<lparr>de = \<lparr>state_de = HAS_FUNCTION, func_de = True, executor_de = None, baton_de = Some 2,
            posted_de = {1}, ran_de = 0, inline_de = 0, added_de = [], deleted_de = False\<rparr>,
       waiter = W_wait 2, adder = A_done, batons = 2\<rparr>
     [Expire, Waiter, Waiter, Waiter] =
   \<lparr>de = \<lparr>state_de = HAS_FUNCTION, func_de = True, executor_de = None, baton_de = Some 2,
            posted_de = {1}, ran_de = 1, inline_de = 0, added_de = [], deleted_de = True\<rparr>,
     waiter = W_done True, adder = A_done, batons = 2\<rparr>"
  by (simp add: wait_steps runAndDestroy_def)

text \<open>
  C8. The placeholder is not left reusable in every run. Let the duration of a first timed
  wait elapse before \<^verbatim>\<open>add\<close> is called, and let \<^verbatim>\<open>add\<close> then load the state
  \<open>HAS_BATON\<close> and copy the first baton before the waiter reverts: the wait reverts the
  placeholder to \<open>EMPTY\<close> and returns not ready, with the continuation not dispatched.
  A waiter that attaches now, with a second baton, makes the state \<open>HAS_BATON\<close> again,
  so the pending \<^verbatim>\<open>compare_exchange\<close> of \<^verbatim>\<open>add\<close> succeeds and \<^verbatim>\<open>add\<close> posts the
  baton it copied, the first one. The continuation is dispatched (\<open>HAS_FUNCTION\<close>), but
  the second waiter is not woken: no step of the waiter or of \<^verbatim>\<open>add\<close> changes the
  state any more, the function has not run and the future is not ready. Only the expiry
  of the second wait ends it; the untimed \<^verbatim>\<open>wait()\<close>, which takes the same steps up to
  \<^verbatim>\<open>baton->wait()\<close> and has no expiry, does not return.
\<close>

theorem timed_wait_lost_wakeup:
  "(let t = run_from armed
              [Waiter, Waiter, Waiter, Expire, Dispatcher, Dispatcher, Dispatcher,
               Waiter, Waiter, Waiter];
        u = run_from (t\<lparr>waiter := W_load\<rparr>) [Waiter, Waiter, Waiter, Dispatcher, Dispatcher]
    in waiter t = W_done False \<and> state_de (de t) = EMPTY \<and> \<not> dispatched (adder t) \<and>
       \<not> isReady t \<and> adder t = A_cas HAS_BATON (Some 1) \<and>
       dispatched (adder u) \<and> adder u = A_done \<and> state_de (de u) = HAS_FUNCTION \<and>
       func_de (de u) \<and> baton_de (de u) = Some 2 \<and> posted_de (de u) = {1} \<and>
       waiter u = W_wait 2 \<and> \<not> isReady u \<and>
       step Waiter u = u \<and> step Dispatcher u = u \<and>
       waiter (run_from u [Expire, Waiter, Waiter, Waiter]) = W_done True \<and>
       isReady (run_from u [Expire, Waiter, Waiter, Waiter]))"
  by (simp add: Let_def lost_first lost_second lost_stuck lost_expiry isReady_def
        del: One_nat_def)

subsection \<open>reduce\<close>

lemma reduce_step_value:
  "then_value (\<lambda>(t0, t1). call2 lr (\<lambda>a x. Inr (g a x)) (value_t t0) (value_t t1))
     (collectAllSemiFuture2 (Value a) (Value x)) = Value (g a x)"
  by (simp add: then_value_def collectAllSemiFuture2_def call2_def makeTryWith_def)

lemma reduce_loop_values:
  "fold (\<lambda>next f.
           then_value (\<lambda>(t0, t1). call2 lr (\<lambda>a x. Inr (g a x)) (value_t t0) (value_t t1))
             (collectAllSemiFuture2 f next))
     (map Value xs) (Value a) = Value (foldl g a xs)"
  by (induction xs arbitrary: a) (simp_all add: reduce_step_value)

lemma reduce_head_value:
  "then_Try (\<lambda>h. call2 lr (\<lambda>a x. Inr (g a x)) (Inr z) (value_t h)) (Value x) = Value (g z x)"
  by (simp add: then_Try_def call2_def makeTryWith_def)

lemma reduce_values:
  "reduce lr (map Value xs) z (\<lambda>a x. Inr (g a x)) value_t = Value (foldl g z xs)"
  by (cases xs) (simp_all add: reduce_def reduce_head_value reduce_loop_values)

text \<open>
  C6. \<^verbatim>\<open>reduce\<close> over input futures that complete with the values \<open>xs\<close> is the
  left-to-right fold of \<open>func\<close> over \<open>xs\<close> from the initial value, each step applying
  \<open>func(acc, next)\<close> in input order (whichever argument the compiler evaluates first);
  for the futures carrying 1, 2, 3, 4, 5, the initial value 0 and integer addition the
  returned future completes with 15.
\<close>

theorem reduce_left_fold:
  "reduce left_first (map Value xs) z (\<lambda>a x. Inr (g a x)) value_t = Value (foldl g z xs) \<and>
   reduce left_first [Value 1, Value 2, Value 3, Value 4, Value 5] (0::int)
     (\<lambda>a x. Inr (a + x)) value_t = Value 15"
  using reduce_values[of left_first "[1, 2, 3, 4, 5]" "0::int" "(+)"]
  by (simp add: reduce_values)

subsection \<open>unorderedReduce\<close>

lemma ur_val_Suc:
  "k < length L \<Longrightarrow>
   ur_val func get ts initial L (Suc k) =
     reducer func get (ts ! (L ! k)) (ur_val func get ts initial L k)"
  by (simp add: ur_val_def take_Suc_conv_app_nth)

lemma ur_val_append:
  "k \<le> length L \<Longrightarrow> ur_val func get ts initial (L @ xs) k = ur_val func get ts initial L k"
  by (simp add: ur_val_def)

lemma ur_heap_length [simp]: "length (ur_heap func get ts initial L P u) = Suc (length L)"
  by (simp add: ur_heap_def)

lemma ur_heap_nth:
  "k \<le> length L \<Longrightarrow>
   ur_heap func get ts initial L P u ! k =
     \<lparr>result_uc = (if k \<le> u then Some (ur_val func get ts initial L k) else None),
      callback_uc = (if k < length L \<and> P k then Some (Reducer (Suc k) (ts ! (L ! k)))
                     else if k = length ts then Some Final else None)\<rparr>"
  unfolding ur_heap_def by (subst nth_map) (simp_all del: upt_Suc)

lemma ur_heap_set_result:
  assumes "u < length L"
  shows "(ur_heap func get ts initial L P u)
           [Suc u := (ur_heap func get ts initial L P u ! Suc u)
                       \<lparr>result_uc := Some (ur_val func get ts initial L (Suc u))\<rparr>] =
         ur_heap func get ts initial L P (Suc u)"
proof (rule nth_equalityI)
  show "length ((ur_heap func get ts initial L P u)
           [Suc u := (ur_heap func get ts initial L P u ! Suc u)
                       \<lparr>result_uc := Some (ur_val func get ts initial L (Suc u))\<rparr>]) =
        length (ur_heap func get ts initial L P (Suc u))" by simp
next
  fix k
  assume "k < length ((ur_heap func get ts initial L P u)
           [Suc u := (ur_heap func get ts initial L P u ! Suc u)
                       \<lparr>result_uc := Some (ur_val func get ts initial L (Suc u))\<rparr>])"
  then have k: "k \<le> length L" by simp
  show "(ur_heap func get ts initial L P u)
           [Suc u := (ur_heap func get ts initial L P u ! Suc u)
                       \<lparr>result_uc := Some (ur_val func get ts initial L (Suc u))\<rparr>] ! k =
        ur_heap func get ts initial L P (Suc u) ! k"
    using k assms by (cases "k = Suc u") (simp_all add: ur_heap_nth nth_list_update)
qed

lemma deliver_ur_other:
  "memo_ur (deliver_ur fuel func get cb v s) = memo_ur s \<and>
   numThens_ur (deliver_ur fuel func get cb v s) = numThens_ur s \<and>
   numFutures_ur (deliver_ur fuel func get cb v s) = numFutures_ur s \<and>
   pcs_ur (deliver_ur fuel func get cb v s) = pcs_ur s"
  by (induction fuel func get cb v s rule: deliver_ur.induct)
     (auto simp: fault_def Let_def split: option.splits)


lemma cascade:
  assumes "heap_ur s = ur_heap func get ts initial L P u"
    and "promise_ur s = makePromise" and "faults_ur s = 0"
    and "u < w" and "w \<le> length L"
    and "\<forall>j. u < j \<and> j < w \<longrightarrow> P j"
    and "w < length L \<longrightarrow> \<not> P w"
    and "w - u < fuel"
  shows "heap_ur (deliver_ur fuel func get (Reducer (Suc u) (ts ! (L ! u)))
                   (ur_val func get ts initial L u) s) = ur_heap func get ts initial L P w \<and>
         promise_ur (deliver_ur fuel func get (Reducer (Suc u) (ts ! (L ! u)))
                   (ur_val func get ts initial L u) s) =
           (if w = length ts
            then \<lparr>core_result = Some (ur_val func get ts initial L w), rejected = 0\<rparr>
            else makePromise) \<and>
         faults_ur (deliver_ur fuel func get (Reducer (Suc u) (ts ! (L ! u)))
                   (ur_val func get ts initial L u) s) = 0"
  using assms
proof (induction "w - u" arbitrary: u s fuel)
  case 0
  then show ?case by simp
next
  case (Suc d)
  from Suc.prems(8) obtain k where fuel: "fuel = Suc k" by (cases fuel) simp_all
  have uL: "u < length L" using Suc.prems(4,5) by simp
  let ?mt = "ts ! (L ! u)"
  let ?v = "ur_val func get ts initial L u"
  let ?r = "ur_val func get ts initial L (Suc u)"
  let ?s1 = "s\<lparr>heap_ur := (heap_ur s)[Suc u := (heap_ur s ! Suc u)\<lparr>result_uc := Some ?r\<rparr>]\<rparr>"
  have r: "reducer func get ?mt ?v = ?r" using uL by (simp add: ur_val_Suc)
  have len: "\<not> length (heap_ur s) \<le> Suc u" using uL Suc.prems(1) by simp
  have none: "result_uc (heap_ur s ! Suc u) = None"
    using uL Suc.prems(1) by (simp add: ur_heap_nth)
  have cb: "callback_uc (heap_ur s ! Suc u) =
      (if Suc u < length L \<and> P (Suc u) then Some (Reducer (Suc (Suc u)) (ts ! (L ! Suc u)))
       else if Suc u = length ts then Some Final else None)"
    using uL Suc.prems(1) by (simp add: ur_heap_nth)
  have h1: "heap_ur ?s1 = ur_heap func get ts initial L P (Suc u)"
    using ur_heap_set_result[OF uL, of func get ts initial P] Suc.prems(1) by simp
  have unfold: "deliver_ur fuel func get (Reducer (Suc u) ?mt) ?v s =
      (case callback_uc (heap_ur s ! Suc u) of
         None \<Rightarrow> ?s1
       | Some c \<Rightarrow> deliver_ur k func get c ?r ?s1)"
    unfolding fuel using len none r by (simp add: Let_def)
  show ?case
  proof (cases "Suc u < w")
    case True
    then have P: "P (Suc u)" and lt: "Suc u < length L" using Suc.prems(5,6) by auto
    have d: "d = w - Suc u" using Suc.hyps(2) by simp
    have "heap_ur (deliver_ur k func get (Reducer (Suc (Suc u)) (ts ! (L ! Suc u))) ?r ?s1) =
            ur_heap func get ts initial L P w \<and>
          promise_ur (deliver_ur k func get (Reducer (Suc (Suc u)) (ts ! (L ! Suc u))) ?r ?s1) =
            (if w = length ts
             then \<lparr>core_result = Some (ur_val func get ts initial L w), rejected = 0\<rparr>
             else makePromise) \<and>
          faults_ur (deliver_ur k func get (Reducer (Suc (Suc u)) (ts ! (L ! Suc u))) ?r ?s1) = 0"
      using h1 Suc.prems(2,3,5,6,7,8) True fuel
      by (intro Suc.hyps(1)[OF d]) simp_all
    then show ?thesis unfolding unfold cb using P lt by simp
  next
    case False
    then have w: "w = Suc u" using Suc.prems(4) by simp
    have stop: "\<not> (Suc u < length L \<and> P (Suc u))" using Suc.prems(7) w by simp
    from Suc.prems(8) w fuel obtain k' where k: "k = Suc k'" by (cases k) simp_all
    show ?thesis
    proof (cases "Suc u = length ts")
      case True
      have cb': "callback_uc (heap_ur s ! Suc u) = Some Final" using cb stop True by simp
      have "deliver_ur fuel func get (Reducer (Suc u) ?mt) ?v s =
          ?s1\<lparr>promise_ur := setTry ?r (promise_ur ?s1)\<rparr>"
        unfolding unfold cb' k by simp
      then show ?thesis using h1 w True Suc.prems(2,3) by (simp add: makePromise_def)
    next
      case False
      have cb': "callback_uc (heap_ur s ! Suc u) = None" using cb stop False by simp
      have "deliver_ur fuel func get (Reducer (Suc u) ?mt) ?v s = ?s1"
        unfolding unfold cb' by simp
      then show ?thesis using h1 w False Suc.prems(2,3) by simp
    qed
  qed
qed

lemma ur_upto_le: "ur_upto P m \<le> m"
  unfolding ur_upto_def using length_takeWhile_le[of P "[0..<m]"] by simp

lemma ur_upto_holds: "j < ur_upto P m \<Longrightarrow> P j"
proof -
  assume j: "j < ur_upto P m"
  then have jm: "j < m" using ur_upto_le[of P m] by simp
  have "takeWhile P [0..<m] ! j \<in> set (takeWhile P [0..<m])"
    using j unfolding ur_upto_def by (intro nth_mem)
  then have "P (takeWhile P [0..<m] ! j)" by (rule set_takeWhileD[THEN conjunct2])
  moreover have "takeWhile P [0..<m] ! j = [0..<m] ! j"
    using j unfolding ur_upto_def by (rule takeWhile_nth)
  ultimately show "P j" using jm by simp
qed

lemma ur_upto_stops: "ur_upto P m < m \<Longrightarrow> \<not> P (ur_upto P m)"
  unfolding ur_upto_def using nth_length_takeWhile[of P "[0..<m]"] by simp

lemma ur_upto_unique:
  assumes "u \<le> m" "\<forall>j<u. P j" "u < m \<longrightarrow> \<not> P u"
  shows "ur_upto P m = u"
proof (rule ccontr)
  assume ne: "ur_upto P m \<noteq> u"
  show False
  proof (cases "ur_upto P m < u")
    case True
    then have "ur_upto P m < m" using assms(1) by simp
    then have "\<not> P (ur_upto P m)" by (rule ur_upto_stops)
    then show False using assms(2) True by simp
  next
    case False
    then have "u < ur_upto P m" using ne by simp
    then have "P u" "u < m" using ur_upto_holds[of u P m] ur_upto_le[of P m] by simp_all
    then show False using assms(3) by simp
  qed
qed

lemma ur_upto_cong: "(\<forall>k<m. P k = Q k) \<Longrightarrow> ur_upto P m = ur_upto Q m"
  unfolding ur_upto_def by (rule arg_cong[where f = length], rule takeWhile_cong) simp_all

lemma ur_heap_cong:
  "(\<forall>k<length L. P k = Q k) \<Longrightarrow>
   ur_heap func get ts initial L P u = ur_heap func get ts initial L Q u"
  unfolding ur_heap_def by (rule map_cong) auto

lemma pos_nth: "distinct L \<Longrightarrow> k < length L \<Longrightarrow> pos L (L ! k) = k"
proof (induction L arbitrary: k)
  case Nil
  then show ?case by simp
next
  case (Cons x L)
  show ?case
  proof (cases k)
    case 0
    then show ?thesis by (simp add: pos_def)
  next
    case (Suc k')
    then have "L ! k' \<noteq> x" using Cons.prems by auto
    then show ?thesis using Cons Suc by (simp add: pos_def)
  qed
qed

lemma nth_pos: "i \<in> set L \<Longrightarrow> pos L i < length L \<and> L ! pos L i = i"
  by (induction L) (auto simp: pos_def)

lemma pos_append: "i \<in> set L \<Longrightarrow> pos (L @ xs) i = pos L i"
  by (induction L) (auto simp: pos_def)

lemma pos_fresh: "i \<notin> set L \<Longrightarrow> pos (L @ [i]) i = length L"
  by (induction L) (auto simp: pos_def)

lemma ur_invD:
  assumes "ur_inv func get ts initial sched s"
  shows "heap_ur s = ur_heap func get ts initial (gate_order sched) (ur_chained sched)
                   (ur_upto (ur_chained sched) (length (gate_order sched)))"
    and "memo_ur s = length (gate_order sched)"
    and "numThens_ur s = length (gate_order sched)"
    and "numFutures_ur s = length ts"
    and "promise_ur s =
       (if ur_upto (ur_chained sched) (length (gate_order sched)) = length ts
        then \<lparr>core_result = Some (ur_val func get ts initial (gate_order sched) (length ts)),
              rejected = 0\<rparr>
        else makePromise)"
    and "faults_ur s = 0"
    and "\<And>i. i < length ts \<Longrightarrow>
        pcs_ur s i =
          (if i \<notin> set sched then U_lock
           else if count_list sched i = 1
           then U_chain (pos (gate_order sched) i) (Suc (pos (gate_order sched) i))
           else U_done)"
  using assms unfolding ur_inv_def by blast+

lemma ur_invI:
  assumes "heap_ur s = ur_heap func get ts initial (gate_order sched) (ur_chained sched)
                   (ur_upto (ur_chained sched) (length (gate_order sched)))"
    and "memo_ur s = length (gate_order sched)"
    and "numThens_ur s = length (gate_order sched)"
    and "numFutures_ur s = length ts"
    and "promise_ur s =
       (if ur_upto (ur_chained sched) (length (gate_order sched)) = length ts
        then \<lparr>core_result = Some (ur_val func get ts initial (gate_order sched) (length ts)),
              rejected = 0\<rparr>
        else makePromise)"
    and "faults_ur s = 0"
    and "\<And>i. i < length ts \<Longrightarrow>
        pcs_ur s i =
          (if i \<notin> set sched then U_lock
           else if count_list sched i = 1
           then U_chain (pos (gate_order sched) i) (Suc (pos (gate_order sched) i))
           else U_done)"
  shows "ur_inv func get ts initial sched s"
  unfolding ur_inv_def
  apply (intro conjI allI impI)
        apply (rule assms(1))
       apply (rule assms(2))
      apply (rule assms(3))
     apply (rule assms(4))
    apply (rule assms(5))
   apply (rule assms(6))
  apply (erule assms(7))
  done

lemma count_list_snoc: "count_list (xs @ [i]) j = count_list xs j + (if i = j then 1 else 0)"
  by (induction xs) auto

lemma count_list_notin: "i \<notin> set xs \<Longrightarrow> count_list xs i = 0"
  by (induction xs) auto

lemma count_list_in: "i \<in> set xs \<Longrightarrow> 1 \<le> count_list xs i"
  by (induction xs) auto

lemma chained_fresh:
  assumes "i \<notin> set sched" "k < length (gate_order sched)"
  shows "ur_chained (sched @ [i]) k = ur_chained sched k"
proof -
  have "gate_order sched ! k \<in> set (gate_order sched)" using assms(2) by (rule nth_mem)
  then have "gate_order sched ! k \<noteq> i" using assms(1) by auto
  then show ?thesis
    using assms by (simp add: ur_chained_def gate_order_snoc nth_append count_list_snoc)
qed

lemma chained_fresh_last:
  assumes "i \<notin> set sched"
  shows "\<not> ur_chained (sched @ [i]) (length (gate_order sched))"
  using assms by (simp add: ur_chained_def gate_order_snoc count_list_snoc count_list_notin)

lemma chained_old:
  assumes "i \<in> set sched" "k < length (gate_order sched)"
  shows "ur_chained (sched @ [i]) k = (ur_chained sched k \<or> gate_order sched ! k = i)"
  using assms count_list_in[of i sched]
  by (auto simp: ur_chained_def gate_order_snoc count_list_snoc)

lemma gate_order_length:
  assumes "set sched \<subseteq> {..<n}"
  shows "length (gate_order sched) \<le> n"
proof -
  have "length (gate_order sched) = card (set (gate_order sched))"
    using distinct_card[OF gate_order_distinct, of sched] by simp
  also have "\<dots> \<le> card {..<n}" using assms by (intro card_mono) simp_all
  finally show ?thesis by simp
qed

lemma ur_heap_snoc:
  assumes "u \<le> length L" "length L < length ts" "\<forall>k<length L. Q k = P k" "\<not> Q (length L)"
  shows "ur_heap func get ts initial (L @ [i]) Q u =
         ur_heap func get ts initial L P u @
           [\<lparr>result_uc = None,
             callback_uc = (if Suc (length L) = length ts then Some Final else None)\<rparr>]"
proof (rule nth_equalityI)
  show "length (ur_heap func get ts initial (L @ [i]) Q u) =
        length (ur_heap func get ts initial L P u @
           [\<lparr>result_uc = None,
             callback_uc = (if Suc (length L) = length ts then Some Final else None)\<rparr>])"
    by simp
next
  fix k assume "k < length (ur_heap func get ts initial (L @ [i]) Q u)"
  then have k: "k \<le> Suc (length L)" by simp
  show "ur_heap func get ts initial (L @ [i]) Q u ! k =
        (ur_heap func get ts initial L P u @
           [\<lparr>result_uc = None,
             callback_uc = (if Suc (length L) = length ts then Some Final else None)\<rparr>]) ! k"
  proof (cases "k \<le> length L")
    case True
    show ?thesis
    proof (cases "k = length L")
      case True
      then show ?thesis
        using assms by (simp add: ur_heap_nth nth_append ur_val_append)
    next
      case False
      then have "k < length L" using True by simp
      then show ?thesis
        using assms by (simp add: ur_heap_nth nth_append ur_val_append)
    qed
  next
    case False
    then have "k = Suc (length L)" using k by simp
    then show ?thesis using assms by (simp add: ur_heap_nth nth_append)
  qed
qed

lemma list_update_last: "length xs = n \<Longrightarrow> (xs @ [x])[n := y] = xs @ [y]"
  by (induction xs arbitrary: n) auto

lemma ur_lock_inv:
  assumes inv: "ur_inv func get ts initial sched s"
    and i: "i < length ts" and fresh: "i \<notin> set sched"
    and sub: "set sched \<subseteq> {..<length ts}"
  shows "ur_inv func get ts initial (sched @ [i]) (ur_lock func get i s)"
proof -
  define L where "L = gate_order sched"
  define u where "u = ur_upto (ur_chained sched) (length L)"
  note d = ur_invD[OF inv, folded L_def, folded u_def]
  have L': "gate_order (sched @ [i]) = L @ [i]"
    using fresh by (simp add: gate_order_snoc L_def)
  have "set (sched @ [i]) \<subseteq> {..<length ts}" using sub i by simp
  from gate_order_length[OF this] have mn: "length L < length ts" by (simp add: L')
  have um: "u \<le> length L" unfolding u_def by (rule ur_upto_le)
  have same: "\<forall>k<length L. ur_chained (sched @ [i]) k = ur_chained sched k"
    using chained_fresh[OF fresh] by (simp add: L_def)
  have last: "\<not> ur_chained (sched @ [i]) (length L)"
    using chained_fresh_last[OF fresh] by (simp add: L_def)
  have u': "ur_upto (ur_chained (sched @ [i])) (Suc (length L)) = u"
  proof (rule ur_upto_unique)
    show "u \<le> Suc (length L)" using um by simp
    show "\<forall>j<u. ur_chained (sched @ [i]) j"
      using same um ur_upto_holds[of _ "ur_chained sched" "length L"] by (simp add: u_def)
    show "u < Suc (length L) \<longrightarrow> \<not> ur_chained (sched @ [i]) u"
    proof (cases "u < length L")
      case True
      then have "\<not> ur_chained sched u" unfolding u_def by (rule ur_upto_stops)
      then show ?thesis using same True by simp
    next
      case False
      then have "u = length L" using um by simp
      then show ?thesis using last by simp
    qed
  qed
  have heap': "ur_heap func get ts initial (L @ [i]) (ur_chained (sched @ [i])) u =
         ur_heap func get ts initial L (ur_chained sched) u @
           [\<lparr>result_uc = None,
             callback_uc = (if Suc (length L) = length ts then Some Final else None)\<rparr>]"
    using um mn same last by (rule ur_heap_snoc)
  have un: "u \<noteq> length ts" using um mn by simp
  show ?thesis
  proof (rule ur_invI)
    show "heap_ur (ur_lock func get i s) =
        ur_heap func get ts initial (gate_order (sched @ [i])) (ur_chained (sched @ [i]))
          (ur_upto (ur_chained (sched @ [i])) (length (gate_order (sched @ [i]))))"
    proof (cases "Suc (length L) = length ts")
      case True
      have len: "length (ur_heap func get ts initial L (ur_chained sched) u) = Suc (length L)"
        by simp
      show ?thesis
        unfolding L' using True[symmetric]
        by (simp add: u' heap' ur_lock_def Let_def setCallback_ur_def d nth_append
            list_update_last[OF len])
    next
      case False
      then show ?thesis
        unfolding L' by (simp add: u' heap' ur_lock_def Let_def setCallback_ur_def d nth_append)
    qed
    show "memo_ur (ur_lock func get i s) = length (gate_order (sched @ [i]))"
      unfolding L' by (simp add: ur_lock_def Let_def setCallback_ur_def d nth_append)
    show "numThens_ur (ur_lock func get i s) = length (gate_order (sched @ [i]))"
      unfolding L' by (simp add: ur_lock_def Let_def setCallback_ur_def d nth_append)
    show "numFutures_ur (ur_lock func get i s) = length ts"
      by (simp add: ur_lock_def Let_def setCallback_ur_def d nth_append)
    show "promise_ur (ur_lock func get i s) =
        (if ur_upto (ur_chained (sched @ [i])) (length (gate_order (sched @ [i]))) = length ts
         then \<lparr>core_result = Some (ur_val func get ts initial (gate_order (sched @ [i])) (length ts)),
                rejected = 0\<rparr>
         else makePromise)"
      unfolding L' using un
      by (simp add: u' ur_lock_def Let_def setCallback_ur_def d nth_append)
    show "faults_ur (ur_lock func get i s) = 0"
      by (simp add: ur_lock_def Let_def setCallback_ur_def d nth_append)
  next
    fix j assume j: "j < length ts"
    have pcs: "pcs_ur (ur_lock func get i s) = (pcs_ur s)(i := U_chain (length L) (Suc (length L)))"
      by (simp add: ur_lock_def Let_def setCallback_ur_def d nth_append)
    show "pcs_ur (ur_lock func get i s) j =
         (if j \<notin> set (sched @ [i]) then U_lock
          else if count_list (sched @ [i]) j = 1
               then U_chain (pos (gate_order (sched @ [i])) j) (Suc (pos (gate_order (sched @ [i])) j))
               else U_done)"
    proof (cases "j = i")
      case True
      then show ?thesis
        using fresh unfolding L' pcs
        by (simp add: count_list_snoc count_list_notin pos_fresh L_def)
    next
      case False
      then show ?thesis
        using d(7)[OF j] unfolding L' pcs
        by (auto simp: count_list_snoc pos_append L_def)
    qed
  qed
qed

lemma ur_heap_set_callback:
  assumes "k < length L" "\<not> P k" "\<forall>j<length L. Q j = (P j \<or> j = k)" "length L \<le> length ts"
  shows "(ur_heap func get ts initial L P u)
           [k := (ur_heap func get ts initial L P u ! k)
                   \<lparr>callback_uc := Some (Reducer (Suc k) (ts ! (L ! k)))\<rparr>] =
         ur_heap func get ts initial L Q u"
proof (rule nth_equalityI)
  show "length ((ur_heap func get ts initial L P u)
           [k := (ur_heap func get ts initial L P u ! k)
                   \<lparr>callback_uc := Some (Reducer (Suc k) (ts ! (L ! k)))\<rparr>]) =
        length (ur_heap func get ts initial L Q u)" by simp
next
  fix j
  assume "j < length ((ur_heap func get ts initial L P u)
           [k := (ur_heap func get ts initial L P u ! k)
                   \<lparr>callback_uc := Some (Reducer (Suc k) (ts ! (L ! k)))\<rparr>])"
  then have j: "j \<le> length L" by simp
  show "(ur_heap func get ts initial L P u)
           [k := (ur_heap func get ts initial L P u ! k)
                   \<lparr>callback_uc := Some (Reducer (Suc k) (ts ! (L ! k)))\<rparr>] ! j =
        ur_heap func get ts initial L Q u ! j"
  proof (cases "j = k")
    case True
    then show ?thesis using assms by (simp add: ur_heap_nth)
  next
    case False
    show ?thesis
    proof (cases "j = length L")
      case True
      then show ?thesis using assms \<open>j \<noteq> k\<close> by (simp add: ur_heap_nth)
    next
      case False
      then have "j < length L" using j by simp
      then show ?thesis using assms \<open>j \<noteq> k\<close> by (simp add: ur_heap_nth)
    qed
  qed
qed

lemma ur_chain_inv:
  assumes inv: "ur_inv func get ts initial sched s"
    and i: "i < length ts" and once: "count_list sched i = 1"
    and sub: "set sched \<subseteq> {..<length ts}"
  shows "ur_inv func get ts initial (sched @ [i]) (ur_step func get ts i s)"
proof -
  define L where "L = gate_order sched"
  define u where "u = ur_upto (ur_chained sched) (length L)"
  define k where "k = pos L i"
  define w where "w = ur_upto (ur_chained (sched @ [i])) (length L)"
  note d = ur_invD[OF inv, folded L_def, folded u_def]
  have mem: "i \<in> set sched" using once count_list_notin[of i sched] by auto
  have L': "gate_order (sched @ [i]) = L"
    using mem by (simp add: gate_order_snoc L_def)
  have mn: "length L \<le> length ts" unfolding L_def using sub by (rule gate_order_length)
  have um: "u \<le> length L" unfolding u_def by (rule ur_upto_le)
  have wm: "w \<le> length L" unfolding w_def by (rule ur_upto_le)
  have "i \<in> set L" using mem by (simp add: L_def)
  from nth_pos[OF this] have k: "k < length L" and Lk: "L ! k = i" by (simp_all add: k_def)
  have dist: "distinct L" by (simp add: L_def)
  have Q: "\<forall>j<length L. ur_chained (sched @ [i]) j = (ur_chained sched j \<or> j = k)"
  proof (intro allI impI)
    fix j assume j: "j < length L"
    have "(L ! j = i) = (j = k)"
      using nth_eq_iff_index_eq[OF dist j k] Lk by simp
    then show "ur_chained (sched @ [i]) j = (ur_chained sched j \<or> j = k)"
      using chained_old[OF mem, of j] j by (simp add: L_def)
  qed
  have nP: "\<not> ur_chained sched k"
    using once Lk by (simp add: ur_chained_def L_def[symmetric])
  have uk: "u \<le> k"
  proof (rule ccontr)
    assume "\<not> u \<le> k"
    then have "k < u" by simp
    then have "ur_chained sched k" unfolding u_def by (rule ur_upto_holds)
    then show False using nP by simp
  qed
  have pc: "pcs_ur s i = U_chain k (Suc k)"
    using d(7)[OF i] mem once by (simp add: k_def)
  have step: "ur_step func get ts i s =
      setCallback_ur func get k (Reducer (Suc k) (ts ! i)) (s\<lparr>pcs_ur := (pcs_ur s)(i := U_done)\<rparr>)"
    using i by (simp add: ur_step_def pc ur_chain_def)
  define s1 where "s1 = s\<lparr>pcs_ur := (pcs_ur s)(i := U_done),
      heap_ur := ur_heap func get ts initial L (ur_chained (sched @ [i])) u\<rparr>"
  have cb: "callback_uc (ur_heap func get ts initial L (ur_chained sched) u ! k) = None"
    using k nP mn by (simp add: ur_heap_nth)
  have res: "result_uc (ur_heap func get ts initial L (ur_chained sched) u ! k) =
      (if k \<le> u then Some (ur_val func get ts initial L k) else None)"
    using k by (simp add: ur_heap_nth)
  have upd: "(ur_heap func get ts initial L (ur_chained sched) u)
           [k := (ur_heap func get ts initial L (ur_chained sched) u ! k)
                   \<lparr>callback_uc := Some (Reducer (Suc k) (ts ! i))\<rparr>] =
         ur_heap func get ts initial L (ur_chained (sched @ [i])) u"
    using ur_heap_set_callback[OF k nP Q mn, of func get initial u] by (simp add: Lk)
  have step': "ur_step func get ts i s =
      (if k \<le> u then deliver_ur (Suc (length L)) func get (Reducer (Suc k) (ts ! i))
                        (ur_val func get ts initial L k) s1
       else s1)"
    unfolding step using k
    by (simp add: setCallback_ur_def d(1) cb res upd s1_def Let_def)
  have s1: "heap_ur s1 = ur_heap func get ts initial L (ur_chained (sched @ [i])) u"
    "memo_ur s1 = length L" "numThens_ur s1 = length L" "numFutures_ur s1 = length ts"
    "promise_ur s1 = (if u = length ts
        then \<lparr>core_result = Some (ur_val func get ts initial L (length ts)), rejected = 0\<rparr>
        else makePromise)"
    "faults_ur s1 = 0" "pcs_ur s1 = (pcs_ur s)(i := U_done)"
    by (simp_all add: s1_def d)
  have un: "u \<noteq> length ts" using uk k mn by simp
  have other: "memo_ur (ur_step func get ts i s) = length L"
    "numThens_ur (ur_step func get ts i s) = length L"
    "numFutures_ur (ur_step func get ts i s) = length ts"
    "pcs_ur (ur_step func get ts i s) = (pcs_ur s)(i := U_done)"
    unfolding step' by (simp_all add: deliver_ur_other s1 del: deliver_ur.simps)
  have main: "heap_ur (ur_step func get ts i s) =
        ur_heap func get ts initial L (ur_chained (sched @ [i])) w \<and>
      promise_ur (ur_step func get ts i s) =
        (if w = length ts
         then \<lparr>core_result = Some (ur_val func get ts initial L w), rejected = 0\<rparr>
         else makePromise) \<and>
      faults_ur (ur_step func get ts i s) = 0"
  proof (cases "u < k")
    case True
    have "w = u" unfolding w_def
    proof (rule ur_upto_unique)
      show "u \<le> length L" by (rule um)
      show "\<forall>j<u. ur_chained (sched @ [i]) j"
        using Q um ur_upto_holds[of _ "ur_chained sched" "length L"] by (simp add: u_def)
      have "\<not> ur_chained sched u" using True k unfolding u_def by (intro ur_upto_stops) simp
      then show "u < length L \<longrightarrow> \<not> ur_chained (sched @ [i]) u" using Q True by simp
    qed
    then show ?thesis using True un by (simp add: step' s1 del: deliver_ur.simps)
  next
    case False
    then have uk': "u = k" using uk by simp
    have kw: "k < w"
    proof (rule ccontr)
      assume "\<not> k < w"
      then have wk: "w \<le> k" by simp
      then have "w < length L" using k by simp
      then have n: "\<not> ur_chained (sched @ [i]) w" unfolding w_def by (rule ur_upto_stops)
      show False
      proof (cases "w = k")
        case True
        then show ?thesis using n Q k by simp
      next
        case False
        then have "w < u" using wk uk' by simp
        then have "ur_chained sched w" unfolding u_def by (rule ur_upto_holds)
        then show ?thesis using n Q \<open>w < length L\<close> by simp
      qed
    qed
    have c: "heap_ur (deliver_ur (Suc (length L)) func get (Reducer (Suc k) (ts ! (L ! k)))
                 (ur_val func get ts initial L k) s1) =
               ur_heap func get ts initial L (ur_chained (sched @ [i])) w \<and>
             promise_ur (deliver_ur (Suc (length L)) func get (Reducer (Suc k) (ts ! (L ! k)))
                 (ur_val func get ts initial L k) s1) =
               (if w = length ts
                then \<lparr>core_result = Some (ur_val func get ts initial L w), rejected = 0\<rparr>
                else makePromise) \<and>
             faults_ur (deliver_ur (Suc (length L)) func get (Reducer (Suc k) (ts ! (L ! k)))
                 (ur_val func get ts initial L k) s1) = 0"
    proof (rule cascade)
      show "heap_ur s1 = ur_heap func get ts initial L (ur_chained (sched @ [i])) k"
        using s1(1) uk' by simp
      show "promise_ur s1 = makePromise" using s1(5) un by simp
      show "faults_ur s1 = 0" by (rule s1(6))
      show "k < w" by (rule kw)
      show "w \<le> length L" by (rule wm)
      show "\<forall>j. k < j \<and> j < w \<longrightarrow> ur_chained (sched @ [i]) j"
        using ur_upto_holds[of _ "ur_chained (sched @ [i])" "length L"] by (simp add: w_def)
      show "w < length L \<longrightarrow> \<not> ur_chained (sched @ [i]) w"
        using ur_upto_stops[of "ur_chained (sched @ [i])" "length L"] by (simp add: w_def)
      show "w - k < Suc (length L)" using wm by simp
    qed
    show ?thesis using c uk' by (simp add: step' Lk del: deliver_ur.simps)
  qed
  show ?thesis
  proof (rule ur_invI)
    show "heap_ur (ur_step func get ts i s) =
        ur_heap func get ts initial (gate_order (sched @ [i])) (ur_chained (sched @ [i]))
          (ur_upto (ur_chained (sched @ [i])) (length (gate_order (sched @ [i]))))"
      unfolding L' w_def[symmetric] using main by simp
    show "memo_ur (ur_step func get ts i s) = length (gate_order (sched @ [i]))"
      unfolding L' by (rule other)
    show "numThens_ur (ur_step func get ts i s) = length (gate_order (sched @ [i]))"
      unfolding L' by (rule other)
    show "numFutures_ur (ur_step func get ts i s) = length ts" by (rule other)
    show "promise_ur (ur_step func get ts i s) =
        (if ur_upto (ur_chained (sched @ [i])) (length (gate_order (sched @ [i]))) = length ts
         then \<lparr>core_result = Some (ur_val func get ts initial (gate_order (sched @ [i])) (length ts)),
                rejected = 0\<rparr>
         else makePromise)"
      unfolding L' w_def[symmetric] using main by auto
    show "faults_ur (ur_step func get ts i s) = 0" using main by simp
  next
    fix j assume j: "j < length ts"
    show "pcs_ur (ur_step func get ts i s) j =
         (if j \<notin> set (sched @ [i]) then U_lock
          else if count_list (sched @ [i]) j = 1
               then U_chain (pos (gate_order (sched @ [i])) j) (Suc (pos (gate_order (sched @ [i])) j))
               else U_done)"
    proof (cases "j = i")
      case True
      then show ?thesis
        using once mem unfolding L' other by (simp add: count_list_snoc)
    next
      case False
      then show ?thesis
        using d(7)[OF j] unfolding L' other
        by (auto simp: count_list_snoc L_def)
    qed
  qed
qed

lemma count_list_pos_in: "0 < count_list xs i \<Longrightarrow> i \<in> set xs"
  by (cases "i \<in> set xs") (simp_all add: count_list_notin)

lemma ur_done_inv:
  assumes inv: "ur_inv func get ts initial sched s"
    and i: "i < length ts" and twice: "2 \<le> count_list sched i"
  shows "ur_inv func get ts initial (sched @ [i]) (ur_step func get ts i s)"
proof -
  define L where "L = gate_order sched"
  note d = ur_invD[OF inv, folded L_def]
  have mem: "i \<in> set sched" using twice by (intro count_list_pos_in) simp
  have L': "gate_order (sched @ [i]) = L"
    using mem by (simp add: gate_order_snoc L_def)
  have pc: "pcs_ur s i = U_done" using d(7)[OF i] mem twice by simp
  have step: "ur_step func get ts i s = s" using i by (simp add: ur_step_def pc)
  have Q: "\<forall>j<length L. ur_chained (sched @ [i]) j = ur_chained sched j"
  proof (intro allI impI)
    fix j assume j: "j < length L"
    have "gate_order sched ! j = i \<Longrightarrow> ur_chained sched j"
      using twice by (simp add: ur_chained_def)
    then show "ur_chained (sched @ [i]) j = ur_chained sched j"
      using chained_old[OF mem, of j] j by (auto simp: L_def)
  qed
  have u: "ur_upto (ur_chained (sched @ [i])) (length L) = ur_upto (ur_chained sched) (length L)"
    using Q by (rule ur_upto_cong)
  have h: "ur_heap func get ts initial L (ur_chained (sched @ [i])) (ur_upto (ur_chained sched) (length L)) =
           ur_heap func get ts initial L (ur_chained sched) (ur_upto (ur_chained sched) (length L))"
    using Q by (rule ur_heap_cong)
  show ?thesis
    unfolding step
  proof (rule ur_invI)
    show "heap_ur s =
        ur_heap func get ts initial (gate_order (sched @ [i])) (ur_chained (sched @ [i]))
          (ur_upto (ur_chained (sched @ [i])) (length (gate_order (sched @ [i]))))"
      unfolding L' u h by (rule d)
    show "memo_ur s = length (gate_order (sched @ [i]))" unfolding L' by (rule d)
    show "numThens_ur s = length (gate_order (sched @ [i]))" unfolding L' by (rule d)
    show "numFutures_ur s = length ts" by (rule d)
    show "promise_ur s =
        (if ur_upto (ur_chained (sched @ [i])) (length (gate_order (sched @ [i]))) = length ts
         then \<lparr>core_result = Some (ur_val func get ts initial (gate_order (sched @ [i])) (length ts)),
                rejected = 0\<rparr>
         else makePromise)"
      unfolding L' u by (rule d)
    show "faults_ur s = 0" by (rule d)
  next
    fix j assume j: "j < length ts"
    show "pcs_ur s j =
         (if j \<notin> set (sched @ [i]) then U_lock
          else if count_list (sched @ [i]) j = 1
               then U_chain (pos (gate_order (sched @ [i])) j) (Suc (pos (gate_order (sched @ [i])) j))
               else U_done)"
      using d(7)[OF j] twice mem unfolding L'
      by (auto simp: count_list_snoc L_def)
  qed
qed

lemma ur_step_inv:
  assumes inv: "ur_inv func get ts initial sched s"
    and i: "i < length ts" and sub: "set sched \<subseteq> {..<length ts}"
  shows "ur_inv func get ts initial (sched @ [i]) (ur_step func get ts i s)"
proof -
  consider "i \<notin> set sched" | "count_list sched i = 1" | "2 \<le> count_list sched i"
    using count_list_in[of i sched] by fastforce
  then show ?thesis
  proof cases
    case 1
    have "pcs_ur s i = U_lock" using ur_invD(7)[OF inv i] 1 by simp
    then have "ur_step func get ts i s = ur_lock func get i s"
      using i by (simp add: ur_step_def)
    then show ?thesis using ur_lock_inv[OF inv i 1 sub] by simp
  next
    case 2
    then show ?thesis using inv i sub by (intro ur_chain_inv)
  next
    case 3
    then show ?thesis using inv i by (intro ur_done_inv)
  qed
qed

lemma ur_init_inv:
  assumes "ts \<noteq> []"
  shows "ur_inv func get ts initial []
       \<lparr>heap_ur = [\<lparr>result_uc = Some (Value initial), callback_uc = None\<rparr>], memo_ur = 0,
        numThens_ur = 0, numFutures_ur = length ts, promise_ur = makePromise, faults_ur = 0,
        pcs_ur = (\<lambda>i. U_lock)\<rparr>"
  using assms by (simp add: ur_inv_def ur_heap_def ur_upto_def ur_val_def)

lemma ur_run_inv:
  assumes "ts \<noteq> []" "set sched \<subseteq> {..<length ts}"
  shows "ur_inv func get ts initial sched (unorderedReduce_run ts initial func get sched)"
  using assms(2)
proof (induction sched rule: rev_induct)
  case Nil
  then show ?case using ur_init_inv[OF assms(1)] by (simp add: unorderedReduce_run_def)
next
  case (snoc i sched)
  then have i: "i < length ts" and sub: "set sched \<subseteq> {..<length ts}" by simp_all
  have run: "unorderedReduce_run ts initial func get (sched @ [i]) =
      ur_step func get ts i (unorderedReduce_run ts initial func get sched)"
    by (simp add: unorderedReduce_run_def)
  show ?case unfolding run using snoc.IH[OF sub] i sub by (rule ur_step_inv)
qed

lemma ur_fair:
  assumes ne: "ts \<noteq> []" and sub: "set sched \<subseteq> {..<length ts}"
    and fair: "\<forall>i<length ts. 2 \<le> count_list sched i"
  shows "set (gate_order sched) = {..<length ts}"
    and "length (gate_order sched) = length ts"
    and "promise_ur (unorderedReduce_run ts initial func get sched) =
          \<lparr>core_result = Some (ur_val func get ts initial (gate_order sched) (length ts)),
           rejected = 0\<rparr>"
    and "faults_ur (unorderedReduce_run ts initial func get sched) = 0"
proof -
  have all: "set sched = {..<length ts}"
  proof
    show "set sched \<subseteq> {..<length ts}" by (rule sub)
    show "{..<length ts} \<subseteq> set sched"
    proof
      fix i assume "i \<in> {..<length ts}"
      then have "2 \<le> count_list sched i" using fair by simp
      then show "i \<in> set sched" by (intro count_list_pos_in) simp
    qed
  qed
  show s: "set (gate_order sched) = {..<length ts}" using all by simp
  have "length (gate_order sched) = card (set (gate_order sched))"
    using distinct_card[OF gate_order_distinct, of sched] by simp
  then show len: "length (gate_order sched) = length ts" using all by simp
  have ch: "\<forall>j<length ts. ur_chained sched j"
  proof (intro allI impI)
    fix j assume "j < length ts"
    then have "gate_order sched ! j \<in> set (gate_order sched)" using len by (intro nth_mem) simp
    then have "gate_order sched ! j < length ts" unfolding s by simp
    then show "ur_chained sched j" using fair by (simp add: ur_chained_def)
  qed
  have u: "ur_upto (ur_chained sched) (length (gate_order sched)) = length ts"
    using ch len by (intro ur_upto_unique) simp_all
  note d = ur_invD[OF ur_run_inv[OF ne sub, of func get initial]]
  show "promise_ur (unorderedReduce_run ts initial func get sched) =
          \<lparr>core_result = Some (ur_val func get ts initial (gate_order sched) (length ts)),
           rejected = 0\<rparr>"
    using d(5) u by simp
  show "faults_ur (unorderedReduce_run ts initial func get sched) = 0" by (rule d(6))
qed

lemma fold_distinct_perm:
  assumes "\<And>x y. f x \<circ> f y = f y \<circ> f x"
  shows "distinct xs \<Longrightarrow> distinct ys \<Longrightarrow> set xs = set ys \<Longrightarrow> fold f xs = fold f ys"
proof (induction xs arbitrary: ys)
  case Nil
  then show ?case by simp
next
  case (Cons x xs)
  have x: "x \<in> set ys" using Cons.prems(3) by auto
  have "fold f ys = fold f (remove1 x ys) \<circ> f x"
    using assms x by (intro fold_remove1_split) simp_all
  moreover have "fold f xs = fold f (remove1 x ys)"
  proof (rule Cons.IH)
    show "distinct xs" using Cons.prems(1) by simp
    show "distinct (remove1 x ys)" using Cons.prems(2) by simp
    show "set xs = set (remove1 x ys)" using Cons.prems by auto
  qed
  ultimately show ?case by simp
qed

lemma reducer_Value:
  "reducer (\<lambda>a x. Inr (g a x)) value_t (Value x) (Value a) = Value (g a x)"
  by (simp add: reducer_def makeTryWith_def)

lemma reducer_not_value:
  "\<not> hasValue v \<or> \<not> hasValue mt \<Longrightarrow>
   \<not> hasValue (reducer (\<lambda>a x. Inr (g a x)) value_t mt v)"
  by (cases v; cases mt) (simp_all add: reducer_def makeTryWith_def)

lemma foldl_reducer_values:
  "foldl (\<lambda>v mt. reducer (\<lambda>a x. Inr (g a x)) value_t mt v) (Value a) (map Value ys) =
   Value (foldl g a ys)"
  by (induction ys arbitrary: a) (simp_all add: reducer_Value)

lemma foldl_reducer_not_value:
  "\<not> hasValue v \<Longrightarrow>
   \<not> hasValue (foldl (\<lambda>v mt. reducer (\<lambda>a x. Inr (g a x)) value_t mt v) v ms)"
proof (induction ms arbitrary: v)
  case Nil
  then show ?case by simp
next
  case (Cons m ms)
  have "\<not> hasValue (reducer (\<lambda>a x. Inr (g a x)) value_t m v)"
    using Cons.prems by (intro reducer_not_value) simp
  from Cons.IH[OF this] show ?case by simp
qed

lemma foldl_reducer_bad:
  "\<exists>t\<in>set ms. \<not> hasValue t \<Longrightarrow>
   \<not> hasValue (foldl (\<lambda>v mt. reducer (\<lambda>a x. Inr (g a x)) value_t mt v) v ms)"
proof (induction ms arbitrary: v)
  case Nil
  then show ?case by simp
next
  case (Cons m ms)
  show ?case
  proof (cases "hasValue m")
    case True
    then have "\<exists>t\<in>set ms. \<not> hasValue t" using Cons.prems by auto
    from Cons.IH[OF this] show ?thesis by simp
  next
    case False
    then have "\<not> hasValue (reducer (\<lambda>a x. Inr (g a x)) value_t m v)"
      by (intro reducer_not_value) simp
    from foldl_reducer_not_value[OF this] show ?thesis by simp
  qed
qed

lemma reduce_step_not_value:
  "\<not> hasValue f \<or> \<not> hasValue nxt \<Longrightarrow>
   \<not> hasValue (then_value (\<lambda>(t0, t1). call2 lr (\<lambda>a x. Inr (g a x)) (value_t t0) (value_t t1))
     (collectAllSemiFuture2 f nxt))"
  by (cases f; cases nxt; cases lr)
     (simp_all add: then_value_def collectAllSemiFuture2_def call2_def makeTryWith_def)

lemma reduce_loop_not_value:
  "\<not> hasValue f \<Longrightarrow>
   \<not> hasValue (fold (\<lambda>next f.
           then_value (\<lambda>(t0, t1). call2 lr (\<lambda>a x. Inr (g a x)) (value_t t0) (value_t t1))
             (collectAllSemiFuture2 f next)) rest f)"
proof (induction rest arbitrary: f)
  case Nil
  then show ?case by simp
next
  case (Cons m ms)
  have "\<not> hasValue (then_value (\<lambda>(t0, t1). call2 lr (\<lambda>a x. Inr (g a x)) (value_t t0) (value_t t1))
     (collectAllSemiFuture2 f m))"
    using Cons.prems by (intro reduce_step_not_value) simp
  from Cons.IH[OF this] show ?case by simp
qed

lemma reduce_loop_bad:
  "\<exists>t\<in>set rest. \<not> hasValue t \<Longrightarrow>
   \<not> hasValue (fold (\<lambda>next f.
           then_value (\<lambda>(t0, t1). call2 lr (\<lambda>a x. Inr (g a x)) (value_t t0) (value_t t1))
             (collectAllSemiFuture2 f next)) rest f)"
proof (induction rest arbitrary: f)
  case Nil
  then show ?case by simp
next
  case (Cons m ms)
  show ?case
  proof (cases "hasValue m")
    case True
    then have "\<exists>t\<in>set ms. \<not> hasValue t" using Cons.prems by auto
    from Cons.IH[OF this] show ?thesis by simp
  next
    case False
    then have "\<not> hasValue (then_value (\<lambda>(t0, t1). call2 lr (\<lambda>a x. Inr (g a x)) (value_t t0) (value_t t1))
       (collectAllSemiFuture2 f m))"
      by (intro reduce_step_not_value) simp
    from reduce_loop_not_value[OF this] show ?thesis by simp
  qed
qed

lemma reduce_head_not_value:
  "\<not> hasValue h \<Longrightarrow>
   \<not> hasValue (then_Try (\<lambda>h. call2 lr (\<lambda>a x. Inr (g a x)) (Inr z) (value_t h)) h)"
  by (cases h; cases lr) (simp_all add: then_Try_def call2_def makeTryWith_def)

lemma reduce_bad:
  assumes "\<exists>t\<in>set ts. \<not> hasValue t"
  shows "\<not> hasValue (reduce lr ts z (\<lambda>a x. Inr (g a x)) value_t)"
proof (cases ts)
  case Nil
  then show ?thesis using assms by simp
next
  case (Cons h rest)
  show ?thesis
  proof (cases "hasValue h")
    case True
    then have "\<exists>t\<in>set rest. \<not> hasValue t" using assms Cons by auto
    from reduce_loop_bad[OF this] show ?thesis by (simp add: reduce_def Cons)
  next
    case False
    from reduce_loop_not_value[OF reduce_head_not_value[OF this]]
    show ?thesis by (simp add: reduce_def Cons)
  qed
qed

lemma value_opt_None: "\<not> hasValue r \<Longrightarrow> value_opt r = None"
  by (cases r) simp_all

lemma all_values: "\<forall>t\<in>set ts. hasValue t \<Longrightarrow> ts = map Value (values_of ts)"
proof (induction ts)
  case Nil
  then show ?case by simp
next
  case (Cons t ts)
  then show ?case by (cases t) simp_all
qed

lemma foldl_perm:
  assumes comm: "\<And>a b. g a b = g b a" and assoc: "\<And>a b c. g (g a b) c = g a (g b c)"
    and L: "distinct L" "set L = {..<length xs}"
  shows "foldl g z (map ((!) xs) L) = foldl g z xs"
proof -
  have c: "\<And>x y. (\<lambda>a. g a (xs ! x)) \<circ> (\<lambda>a. g a (xs ! y)) = (\<lambda>a. g a (xs ! y)) \<circ> (\<lambda>a. g a (xs ! x))"
  proof (rule ext)
    fix x y a
    have "g (g a (xs ! y)) (xs ! x) = g a (g (xs ! y) (xs ! x))" by (rule assoc)
    also have "\<dots> = g a (g (xs ! x) (xs ! y))" using comm[of "xs ! x" "xs ! y"] by simp
    also have "\<dots> = g (g a (xs ! x)) (xs ! y)" by (rule assoc[symmetric])
    finally show "((\<lambda>a. g a (xs ! x)) \<circ> (\<lambda>a. g a (xs ! y))) a =
                  ((\<lambda>a. g a (xs ! y)) \<circ> (\<lambda>a. g a (xs ! x))) a" by simp
  qed
  have p: "fold (\<lambda>i a. g a (xs ! i)) L = fold (\<lambda>i a. g a (xs ! i)) [0..<length xs]"
    using c by (rule fold_distinct_perm) (simp_all add: L atLeast0LessThan)
  have "foldl g z (map ((!) xs) L) = fold (\<lambda>i a. g a (xs ! i)) L z"
    by (simp add: foldl_conv_fold fold_map comp_def)
  also have "\<dots> = fold (\<lambda>i a. g a (xs ! i)) [0..<length xs] z" by (simp add: p)
  also have "\<dots> = foldl g z (map ((!) xs) [0..<length xs])"
    by (simp add: foldl_conv_fold fold_map comp_def)
  also have "\<dots> = foldl g z xs" by (simp add: map_nth)
  finally show ?thesis .
qed

lemma ur_val_values:
  assumes comm: "\<And>a b. g a b = g b a" and assoc: "\<And>a b c. g (g a b) c = g a (g b c)"
    and L: "distinct L" "set L = {..<length xs}" "length L = length xs"
  shows "ur_val (\<lambda>a x. Inr (g a x)) value_t (map Value xs) z L (length xs) = Value (foldl g z xs)"
proof -
  have m: "map ((!) (map Value xs)) L = map Value (map ((!) xs) L)"
    using L(2) by (auto simp: comp_def)
  have "ur_val (\<lambda>a x. Inr (g a x)) value_t (map Value xs) z L (length xs) =
      foldl (\<lambda>v mt. reducer (\<lambda>a x. Inr (g a x)) value_t mt v) (Value z)
        (map Value (map ((!) xs) L))"
    unfolding ur_val_def m[symmetric] using L(3) by simp
  also have "\<dots> = Value (foldl g z (map ((!) xs) L))" by (rule foldl_reducer_values)
  also have "\<dots> = Value (foldl g z xs)"
    using foldl_perm[OF comm assoc L(1,2), of z] by simp
  finally show ?thesis .
qed

lemma ur_val_bad:
  assumes "\<exists>t\<in>set ts. \<not> hasValue t" "set L = {..<length ts}" "length L = length ts"
  shows "\<not> hasValue (ur_val (\<lambda>a x. Inr (g a x)) value_t ts z L (length ts))"
proof -
  have "set (map ((!) ts) L) = (!) ts ` {..<length ts}"
    using assms(2) by simp
  also have "\<dots> = set ts" by (auto simp: set_conv_nth)
  finally have "set (map ((!) ts) L) = set ts" .
  then have "\<exists>t\<in>set (map ((!) ts) L). \<not> hasValue t" using assms(1) by simp
  from foldl_reducer_bad[OF this] show ?thesis using assms(3) by (simp add: ur_val_def)
qed

text \<open>
  C5. For every list of input futures, with results \<open>ts\<close>, every initial value \<open>z\<close>
  and every operator \<open>g\<close> that is commutative and associative, and for every order in
  which the input futures complete and every interleaving of their callbacks' steps
  (every schedule in which each callback takes both of its steps),
  \<^verbatim>\<open>unorderedReduce\<close> completes, and with the same value as the sequential
  \<^verbatim>\<open>reduce\<close> of the same inputs, \<open>z\<close> and \<open>g\<close>: it holds a value exactly when the
  result of \<^verbatim>\<open>reduce\<close> does, and then the same one; when all inputs complete with
  values the two results are equal.
\<close>

theorem unorderedReduce_eq_reduce:
  assumes comm: "\<And>a b. g a b = g b a" and assoc: "\<And>a b c. g (g a b) c = g a (g b c)"
    and sched: "ur_schedule (length ts) sched"
  shows "map_option value_opt (unorderedReduce ts z (\<lambda>a x. Inr (g a x)) value_t sched) =
           Some (value_opt (reduce left_first ts z (\<lambda>a x. Inr (g a x)) value_t)) \<and>
         ((\<forall>t\<in>set ts. hasValue t) \<longrightarrow>
            unorderedReduce ts z (\<lambda>a x. Inr (g a x)) value_t sched =
              Some (reduce left_first ts z (\<lambda>a x. Inr (g a x)) value_t))"
proof (cases "ts = []")
  case True
  then show ?thesis by (simp add: unorderedReduce_def reduce_def)
next
  case False
  have sub: "set sched \<subseteq> {..<length ts}" and fair: "\<forall>i<length ts. 2 \<le> count_list sched i"
    using sched by (simp_all add: ur_schedule_def)
  note f = ur_fair[OF False sub fair]
  have r: "unorderedReduce ts z (\<lambda>a x. Inr (g a x)) value_t sched =
      Some (ur_val (\<lambda>a x. Inr (g a x)) value_t ts z (gate_order sched) (length ts))"
  proof -
    have "promise_ur (unorderedReduce_run ts z (\<lambda>a x. Inr (g a x)) value_t sched) =
          \<lparr>core_result = Some (ur_val (\<lambda>a x. Inr (g a x)) value_t ts z (gate_order sched) (length ts)),
           rejected = 0\<rparr>"
      by (rule f(3))
    then show ?thesis using False by (simp add: unorderedReduce_def)
  qed
  show ?thesis
  proof (cases "\<forall>t\<in>set ts. hasValue t")
    case True
    define xs where "xs = values_of ts"
    have ts: "ts = map Value xs" unfolding xs_def using True by (rule all_values)
    have len: "length xs = length ts" using ts by simp
    have "ur_val (\<lambda>a x. Inr (g a x)) value_t (map Value xs) z (gate_order sched) (length xs) =
        Value (foldl g z xs)"
    proof (rule ur_val_values[OF comm assoc])
      show "distinct (gate_order sched)" by simp
      show "set (gate_order sched) = {..<length xs}" unfolding len by (rule f(1))
      show "length (gate_order sched) = length xs" unfolding len by (rule f(2))
    qed
    then have uv: "ur_val (\<lambda>a x. Inr (g a x)) value_t ts z (gate_order sched) (length ts) =
        Value (foldl g z xs)"
      by (simp only: ts[symmetric] len)
    have "reduce left_first (map Value xs) z (\<lambda>a x. Inr (g a x)) value_t = Value (foldl g z xs)"
      by (rule reduce_values)
    then have red: "reduce left_first ts z (\<lambda>a x. Inr (g a x)) value_t = Value (foldl g z xs)"
      by (simp only: ts[symmetric])
    show ?thesis using True by (simp add: r uv red)
  next
    case bad: False
    then have b: "\<exists>t\<in>set ts. \<not> hasValue t" by simp
    have "\<not> hasValue (ur_val (\<lambda>a x. Inr (g a x)) value_t ts z (gate_order sched) (length ts))"
      using b f(1,2) by (rule ur_val_bad)
    moreover have "\<not> hasValue (reduce left_first ts z (\<lambda>a x. Inr (g a x)) value_t)"
      using b by (rule reduce_bad)
    ultimately show ?thesis using b by (auto simp add: r value_opt_None)
  qed
qed

theorem unorderedReduce_eq_reduce_witness:
  "ur_schedule (length [Value 1, Value 2, Value (3::int)]) [2, 0, 1, 1, 0, 2] \<and>
   unorderedReduce [Value 1, Value 2, Value 3] (0::int) (\<lambda>a x. Inr (a + x)) value_t
     [2, 0, 1, 1, 0, 2] = Some (Value 6) \<and>
   reduce True [Value 1, Value 2, Value 3] (0::int) (\<lambda>a x. Inr (a + x)) value_t = Value 6"
proof -
  have s: "ur_schedule (length [Value 1, Value 2, Value (3::int)]) [2, 0, 1, 1, 0, 2]"
    by (simp add: ur_schedule_def lessThan_Suc All_less_Suc)
  have r: "reduce True [Value 1, Value 2, Value 3] (0::int) (\<lambda>a x. Inr (a + x)) value_t = Value 6"
    using reduce_values[of True "[1, 2, 3]" "0::int" "(+)"] by simp
  show ?thesis
    using unorderedReduce_eq_reduce[of "(+) :: int \<Rightarrow> int \<Rightarrow> int",
        OF add.commute add.assoc s, of 0 True] s r
    by simp
qed

subsection \<open>within\<close>

lemma within_step_settled:
  assumes "settled s"
  shows "settled (within_step t ev s) \<and>
         promise_wc (ctx_w (within_step t ev s)) = promise_wc (ctx_w s)"
  using assms
  by (cases ev)
     (auto simp: settled_def within_step_def release_w_def source_arm_def timer_arm_def
        destroyPromise_def Let_def)

lemma within_fold_settled:
  "settled s \<Longrightarrow> promise_wc (ctx_w (fold (within_step t) evs s)) = promise_wc (ctx_w s)"
proof (induction evs arbitrary: s)
  case Nil
  then show ?case by simp
next
  case (Cons ev evs)
  then show ?case using within_step_settled[of s t ev] by simp
qed

lemma within_fold_open:
  assumes "\<not> token_wc (ctx_w s)" "promise_wc (ctx_w s) = makePromise" "exception_wc (ctx_w s) = e"
    and "owners_w s = 2 \<and> count_list evs Returns \<le> 1 \<or> owners_w s = 1 \<and> Returns \<notin> set evs"
  shows "promise_wc (ctx_w (fold (within_step t) evs s)) =
           \<lparr>core_result = arm_result e t (first_arm evs), rejected = 0\<rparr>"
  using assms
proof (induction evs arbitrary: s)
  case Nil
  then show ?case by (simp add: arm_result_def makePromise_def)
next
  case (Cons ev evs)
  show ?case
  proof (cases ev)
    case Returns
    let ?s = "within_step t ev s"
    have o: "owners_w s = 2" "Returns \<notin> set evs"
      using Cons.prems(4) Returns by (auto simp: count_list_0_iff split: if_splits)
    have "promise_wc (ctx_w (fold (within_step t) evs ?s)) =
           \<lparr>core_result = arm_result e t (first_arm evs), rejected = 0\<rparr>"
      using Cons.prems(1-3) o Returns
      by (intro Cons.IH) (simp_all add: within_step_def release_w_def)
    then show ?thesis using Returns by simp
  next
    case SourceCompletes
    let ?s = "within_step t ev s"
    have ow: "owners_w s = 1 \<or> owners_w s = 2" using Cons.prems(4) by auto
    have p: "promise_wc (ctx_w ?s) = \<lparr>core_result = Some t, rejected = 0\<rparr>" and "settled ?s"
      using Cons.prems(1-3) SourceCompletes ow
      by (auto simp: within_step_def release_w_def source_arm_def settled_def makePromise_def
          destroyPromise_def)
    then show ?thesis using within_fold_settled[of ?s t evs] SourceCompletes
      by (simp add: arm_result_def)
  next
    case (TimerFires tu)
    let ?s = "within_step t ev s"
    have ow: "owners_w s \<noteq> 0" using Cons.prems(4) by auto
    have p: "promise_wc (ctx_w ?s) =
        \<lparr>core_result = Some (Exception (case tu of Exception e' \<Rightarrow> e' | _ \<Rightarrow> e)), rejected = 0\<rparr>"
      and "settled ?s"
      using Cons.prems(1-3) TimerFires ow
      by (cases tu; simp add: within_step_def timer_arm_def settled_def makePromise_def
          setException_def Let_def)+
    then show ?thesis using within_fold_settled[of ?s t evs] TimerFires
      by (simp add: arm_result_def)
  qed
qed

text \<open>
  C3, as the code has it. A ready future is returned as it is, and without a timekeeper
  the result is \<^verbatim>\<open>FutureNoTimekeeper\<close>. Otherwise the result is fulfilled by exactly
  one of the two arms, the one that takes the token first: by the source arm with the
  result of the source, or by the timer arm with the error given to \<^verbatim>\<open>within\<close>
  (\<^verbatim>\<open>FutureTimeout\<close> for \<^verbatim>\<open>within(dur, tk)\<close>) when the timer future completed
  normally, and with the timer future's own error when it failed. The two arms never
  both fulfil it, and before either has run it is not ready.
\<close>

theorem within_one_arm:
  assumes "count_list evs Returns \<le> 1"
  shows "within_e ready timekeeper e t evs =
           (if ready then Some t
            else if \<not> timekeeper then Some (Exception FutureNoTimekeeper)
            else (case first_arm evs of
                    None \<Rightarrow> None
                  | Some Returns \<Rightarrow> None
                  | Some SourceCompletes \<Rightarrow> Some t
                  | Some (TimerFires tu) \<Rightarrow>
                      Some (Exception (case tu of Exception e' \<Rightarrow> e' | _ \<Rightarrow> e)))) \<and>
         rejected (promise_wc (ctx_w (within_run e t evs))) = 0 \<and>
         within ready timekeeper t evs = within_e ready timekeeper FutureTimeout t evs"
proof -
  have "promise_wc (ctx_w (within_run e t evs)) =
          \<lparr>core_result = arm_result e t (first_arm evs), rejected = 0\<rparr>"
    unfolding within_run_def using assms by (intro within_fold_open) simp_all
  then show ?thesis
    by (simp add: within_e_def within_def withinImplementation_def arm_result_def)
qed

theorem within_one_arm_witness:
  "count_list [Returns, SourceCompletes, TimerFires (Value ())] Returns \<le> 1 \<and>
   within False True (Value (5::nat)) [Returns, SourceCompletes, TimerFires (Value ())] =
     Some (Value 5) \<and>
   within False True (Value (5::nat)) [Returns, TimerFires (Value ()), SourceCompletes] =
     Some (Exception FutureTimeout) \<and>
   within False True (Value (5::nat)) [Returns, TimerFires (Value ())] =
     Some (Exception FutureTimeout)"
proof -
  have c: "count_list [Returns, SourceCompletes, TimerFires (Value ())] Returns \<le> 1"
    "count_list [Returns, TimerFires (Value ()), SourceCompletes] Returns \<le> 1"
    "count_list [Returns, TimerFires (Value ())] Returns \<le> 1"
    by simp_all
  show ?thesis
    using within_one_arm[OF c(1), of False True FutureTimeout "Value (5::nat)"]
      within_one_arm[OF c(2), of False True FutureTimeout "Value (5::nat)"]
      within_one_arm[OF c(3), of False True FutureTimeout "Value (5::nat)"] c(1)
    by simp
qed

text \<open>
  The claim as stated fails when the timer future itself fails before the source
  completes: the result is the timer's error, neither the result of the source nor
  \<^verbatim>\<open>FutureTimeout\<close>. It also fails without a timekeeper.
\<close>

theorem within_one_arm_counterexample:
  "within False True (Value (5::nat))
     [Returns, TimerFires (Exception (UserError 0)), SourceCompletes] =
     Some (Exception (UserError 0)) \<and>
   within False True (Value (5::nat))
     [Returns, TimerFires (Exception (UserError 0)), SourceCompletes] \<noteq> Some (Value 5) \<and>
   within False True (Value (5::nat))
     [Returns, TimerFires (Exception (UserError 0)), SourceCompletes] \<noteq>
     Some (Exception FutureTimeout) \<and>
   within False False (Value (5::nat)) [Returns, SourceCompletes] =
     Some (Exception FutureNoTimekeeper)"
  by (simp add: within_def within_e_def withinImplementation_def within_run_def within_step_def
      release_w_def source_arm_def timer_arm_def makePromise_def setException_def setTry_def
      destroyPromise_def Let_def)

end
